theory Spec2Isabelle
  imports Complex_Main
begin

section \<open>reset\_elo\_usb.py: data model\<close>

text \<open>
  The module finds the USB buses that host devices of one vendor
  (\<open>find_elo_buses\<close>), toggles the \<open>authorized\<close> attribute of each of them in two
  phases through a thread pool (\<open>reset_buses_parallel\<close>) and turns the outcome into
  a process exit code (\<open>main\<close>). Logging is left out of the model: no control flow
  depends on it.
\<close>

text \<open>
  A Python \<open>float\<close> as far as the module looks at it: a finite value, taken as a
  rational number, or one of the three values that are not finite.
\<close>

datatype pyfloat = Finite rat | Infinity | NegInfinity | NaN

instantiation pyfloat :: zero
begin

definition zero_pyfloat :: pyfloat where
  "zero_pyfloat = Finite 0"

instance ..

end

definition ELO_VENDOR_ID :: int where
  "ELO_VENDOR_ID = 0x04E7"

definition DEFAULT_RESET_DELAY :: pyfloat where
  "DEFAULT_RESET_DELAY = Finite 1"

definition SYSFS_USB_PATH :: string where
  "SYSFS_USB_PATH = ''/sys/bus/usb/devices''"

text \<open>
  \<open>@dataclass class USBBusInfo\<close>: three fields, no \<open>frozen=True\<close>, no
  \<open>unsafe_hash=True\<close>.
\<close>

record USBBusInfo =
  bus_number :: int
  device_count :: int
  sysfs_path :: string

text \<open>
  The exceptions that travel through the module. \<open>USBError\<close> stands for whatever
  the pyusb layer raises; \<open>OSError\<close> is what \<open>Path.exists\<close> lets through;
  \<open>ValueError\<close> and \<open>OverflowError\<close> are what \<open>time.sleep\<close> raises;
  \<open>KeyboardInterrupt\<close> derives from \<open>BaseException\<close> only, so an
  \<open>except Exception\<close> clause lets it through.
\<close>

datatype exn =
  USBBusResetError | TypeError | ValueError | OverflowError | OSError | KeyboardInterrupt
  | USBError

fun is_Exception :: "exn \<Rightarrow> bool" where
  "is_Exception KeyboardInterrupt = False"
| "is_Exception _ = True"

datatype phase = Disable | Enable

text \<open>What \<open>future.result(timeout=1.0)\<close> does in the driver thread.\<close>

datatype wait_result = Returned | Raised | TimedOut

text \<open>
  The host the script runs on.
  \<^item> \<open>geteuid\<close>: the value of \<open>os.geteuid()\<close>.
  \<^item> \<open>usb_find vid\<close>: the generator \<open>usb.core.find(find_all=True, idVendor=vid)\<close>
    as the \<open>for\<close> loop consumes it: the bus numbers of the devices it yields, in
    order, and then either exhaustion (\<open>None\<close>) or an exception (a missing backend
    gives no device and an exception).
  \<^item> \<open>path_exists i p\<close>: what \<open>Path.exists\<close> does for path \<open>p\<close> while the
    \<open>i\<close>-th yielded device is processed: it answers, or it raises (pathlib lets
    every \<open>OSError\<close> through but the not-found ones). The file system is live, so
    the answer may change during a pass.
  \<^item> \<open>write_takes ph b\<close>: the seconds the \<open>write_text\<close> call of phase \<open>ph\<close> on
    the control path of descriptor \<open>b\<close> takes once a worker has started it;
    \<open>write_fails ph b\<close>: whether it ends by raising.
  Every write ends, so that leaving the \<open>with\<close> block (which joins the workers)
  returns.
\<close>

record host =
  geteuid :: int
  usb_find :: "int \<Rightarrow> int list \<times> exn option"
  path_exists :: "nat \<Rightarrow> string \<Rightarrow> exn + bool"
  write_takes :: "phase \<Rightarrow> USBBusInfo \<Rightarrow> rat"
  write_fails :: "phase \<Rightarrow> USBBusInfo \<Rightarrow> bool"

text \<open>What discovery asks of the host, in program order.\<close>

datatype probe = Find int | Exists string

text \<open>
  What the coordinator's driver thread does, in program order; each entry of a trace
  carries the time (seconds since the pool was created) at which it happens.
  \<open>Write p s\<close> is the submission of \<open>write_text(s)\<close> on path \<open>p\<close>;
  \<open>Result ph b w r\<close> is the end, with \<open>r\<close>, of the \<open>future.result\<close> call made at
  time \<open>w\<close> on the task of phase \<open>ph\<close> for \<open>b\<close>; \<open>Sleep d\<close> is the start of a
  \<open>time.sleep\<close> of \<open>d\<close> seconds.
\<close>

datatype action =
  Write string string | Result phase USBBusInfo rat wait_result | Sleep rat

section \<open>Python values\<close>

text \<open>\<open>str(n)\<close> for an integer, as the f-string \<open>f"usb{bus_num}"\<close> formats it.\<close>

definition digit_char :: "nat \<Rightarrow> char" where
  "digit_char d = char_of (48 + d)"

fun str_nat :: "nat \<Rightarrow> string" where
  "str_nat n = (if n < 10 then [digit_char n] else str_nat (n div 10) @ [digit_char (n mod 10)])"

declare str_nat.simps [simp del]

definition str_int :: "int \<Rightarrow> string" where
  "str_int i = (if i < 0 then CHR ''-'' # str_nat (nat (- i)) else str_nat (nat i))"

text \<open>\<open>int(s)\<close> on a string of decimal digits, used to show that \<open>str\<close> loses nothing.\<close>

definition digits_value :: "string \<Rightarrow> nat" where
  "digits_value s = foldl (\<lambda>acc c. 10 * acc + (of_char c - 48)) 0 s"

text \<open>
  \<open>x or d\<close> for an optional number: \<open>None\<close> and zero are falsy (for a float, zero
  is \<open>Finite 0\<close>; \<open>nan\<close> and the infinities are truthy).
\<close>

definition py_or :: "'a::zero option \<Rightarrow> 'a \<Rightarrow> 'a" where
  "py_or x d = (case x of None \<Rightarrow> d | Some v \<Rightarrow> if v = 0 then d else v)"

text \<open>
  \<open>set(xs)\<close> for a sequence of \<open>USBBusInfo\<close> objects. The dataclass decorator, with
  \<open>eq=True\<close> and \<open>frozen=False\<close> (the defaults), sets \<open>__hash__\<close> to \<open>None\<close>, so
  hashing the first element raises \<open>TypeError\<close>; only the empty sequence gives a
  set. The set is represented by the list of its elements in iteration order.
\<close>

fun py_set :: "USBBusInfo list \<Rightarrow> exn + USBBusInfo list" where
  "py_set [] = Inr []"
| "py_set (b # bs) = Inl TypeError"

text \<open>
  \<open>time.sleep(secs)\<close>: the exception it raises, or the seconds it sleeps. CPython
  turns the argument into a 64-bit count of nanoseconds: \<open>nan\<close> is a
  \<open>ValueError\<close>, a count out of range (both infinities, and about 9.22e9 seconds
  or more in absolute value) an \<open>OverflowError\<close>, and a negative count a
  \<open>ValueError\<close>. The bound is taken on the exact product, not on its rounding to a
  double.
\<close>

fun time_sleep :: "pyfloat \<Rightarrow> exn + rat" where
  "time_sleep NaN = Inl ValueError"
| "time_sleep Infinity = Inl OverflowError"
| "time_sleep NegInfinity = Inl OverflowError"
| "time_sleep (Finite secs) =
     (if 2 ^ 63 - 1 < secs * 10 ^ 9 then Inl OverflowError
      else if secs * 10 ^ 9 < - (2 ^ 63) then Inl OverflowError
      else if secs < 0 then Inl ValueError
      else Inr secs)"

section \<open>find\_elo\_buses\<close>

definition sysfs_path_of :: "int \<Rightarrow> string" where
  "sysfs_path_of bus_num = SYSFS_USB_PATH @ ''/usb'' @ str_int bus_num @ ''/authorized''"

text \<open>\<open>buses[bus_num].device_count += 1\<close> on the dictionary, kept in insertion order.\<close>

fun increment_count :: "int \<Rightarrow> (int \<times> USBBusInfo) list \<Rightarrow> (int \<times> USBBusInfo) list" where
  "increment_count bus_num [] = []"
| "increment_count bus_num ((k, info) # rest) =
     (if k = bus_num then (k, info\<lparr>device_count := device_count info + 1\<rparr>) # rest
      else (k, info) # increment_count bus_num rest)"

text \<open>
  The \<open>for device in devices\<close> loop: \<open>i\<close> is the index of the device at the head of
  the list, \<open>buses\<close> the dictionary and \<open>probes\<close> the existence checks made so far.
  It ends with the dictionary, the probes and the exception that left the loop, if
  one did. A bus whose path is absent leaves no entry behind (\<open>continue\<close>).
\<close>

fun scan_devices ::
  "(nat \<Rightarrow> string \<Rightarrow> exn + bool) \<Rightarrow> nat \<Rightarrow> int list \<Rightarrow> (int \<times> USBBusInfo) list \<Rightarrow> probe list
     \<Rightarrow> (int \<times> USBBusInfo) list \<times> probe list \<times> exn option" where
  "scan_devices ex i [] buses probes = (buses, probes, None)"
| "scan_devices ex i (bus_num # devices) buses probes =
     (if map_of buses bus_num = None then
        (let sysfs_path = sysfs_path_of bus_num in
           case ex i sysfs_path of
             Inl e \<Rightarrow> (buses, probes @ [Exists sysfs_path], Some e)
           | Inr present \<Rightarrow>
               if \<not> present then
                 scan_devices ex (Suc i) devices buses (probes @ [Exists sysfs_path])
               else
                 scan_devices ex (Suc i) devices
                   (buses @ [(bus_num,
                       \<lparr>bus_number = bus_num, device_count = 1, sysfs_path = sysfs_path\<rparr>)])
                   (probes @ [Exists sysfs_path]))
      else scan_devices ex (Suc i) devices (increment_count bus_num buses) probes)"

text \<open>
  The dictionary \<open>buses\<close> as it stands when the loop over \<open>devices\<close> has ended or
  was left, and the exception an existence check left it with.
\<close>

definition accepted_buses :: "host \<Rightarrow> int list \<Rightarrow> USBBusInfo list" where
  "accepted_buses h devices = map snd (fst (scan_devices (path_exists h) 0 devices [] []))"

definition check_raised :: "host \<Rightarrow> int list \<Rightarrow> exn option" where
  "check_raised h devices = snd (snd (scan_devices (path_exists h) 0 devices [] []))"

text \<open>
  \<open>find_elo_buses\<close>: the result (an exception or the returned set) and the probes made.
  The devices the generator yields are processed before it fails, if it does. An
  exception inside the \<open>try\<close> block is wrapped as \<open>USBBusResetError\<close> when it is an
  \<open>Exception\<close>; the \<open>set(...)\<close> call of the last line is outside the \<open>try\<close> block.
\<close>

definition find_elo_buses :: "host \<Rightarrow> int \<Rightarrow> (exn + USBBusInfo list) \<times> probe list" where
  "find_elo_buses h vendor_id =
     (case usb_find h vendor_id of (devices, failure) \<Rightarrow>
        (case scan_devices (path_exists h) 0 devices [] [Find vendor_id] of
           (buses, probes, raised) \<Rightarrow>
             (case (if raised = None then failure else raised) of
                Some e \<Rightarrow> (if is_Exception e then Inl USBBusResetError else Inl e, probes)
              | None \<Rightarrow> (py_set (map snd buses), probes))))"

section \<open>reset\_buses\_parallel\<close>

text \<open>
  \<open>ThreadPoolExecutor(max_workers=len(buses))\<close>: a pool is the list, one entry per
  worker it may have, of the times from which each is idle. A submitted task goes to
  the queue, and the worker that is idle first takes it: the task starts when it was
  submitted or when that worker is idle, whichever is later.
\<close>

definition run_task :: "rat \<Rightarrow> rat \<Rightarrow> rat list \<Rightarrow> (rat \<times> rat) \<times> rat list" where
  "run_task submitted takes workers =
     (let idle = Min (set workers);
          start = max submitted idle;
          finish = start + takes
      in ((start, finish), finish # remove1 idle workers))"

text \<open>
  A loop of \<open>executor.submit\<close> calls at time \<open>now\<close>: the futures, each with its bus
  and the times at which its write starts and finishes, and the pool afterwards.
\<close>

fun submit_all ::
  "host \<Rightarrow> phase \<Rightarrow> rat \<Rightarrow> USBBusInfo list \<Rightarrow> rat list
     \<Rightarrow> (USBBusInfo \<times> rat \<times> rat) list \<times> rat list" where
  "submit_all h ph now [] workers = ([], workers)"
| "submit_all h ph now (bus # rest) workers =
     (case run_task now (write_takes h ph bus) workers of
        ((start, finish), workers') \<Rightarrow>
          (case submit_all h ph now rest workers' of
             (futures, workers'') \<Rightarrow> ((bus, start, finish) # futures, workers'')))"

text \<open>
  \<open>future.result(timeout=1.0)\<close> called at time \<open>now\<close> on a task that finishes at time
  \<open>finish\<close>: the time at which the call ends, and how.
\<close>

definition future_result :: "rat \<Rightarrow> rat \<Rightarrow> bool \<Rightarrow> rat \<times> wait_result" where
  "future_result now finish fails =
     (if finish \<le> now + 1 then (max now finish, if fails then Raised else Returned)
      else (now + 1, TimedOut))"

text \<open>
  The loop over \<open>disable_futures\<close>: both branches of its \<open>try\<close> only log. \<open>now\<close> is
  the driver's clock.
\<close>

fun await_disables ::
  "host \<Rightarrow> rat \<Rightarrow> (USBBusInfo \<times> rat \<times> rat) list \<Rightarrow> rat \<times> (rat \<times> action) list" where
  "await_disables h now [] = (now, [])"
| "await_disables h now ((bus, start, finish) # rest) =
     (case future_result now finish (write_fails h Disable bus) of
        (now', r) \<Rightarrow>
          (case await_disables h now' rest of
             (t, trace) \<Rightarrow> (t, (now', Result Disable bus now r) # trace)))"

text \<open>
  The loop over \<open>enable_futures\<close>: \<open>success_count\<close> grows when \<open>future.result\<close>
  returns.
\<close>

fun count_enables ::
  "host \<Rightarrow> rat \<Rightarrow> (USBBusInfo \<times> rat \<times> rat) list \<Rightarrow> int \<Rightarrow> int \<times> (rat \<times> action) list" where
  "count_enables h now [] success_count = (success_count, [])"
| "count_enables h now ((bus, start, finish) # rest) success_count =
     (case future_result now finish (write_fails h Enable bus) of
        (now', r) \<Rightarrow>
          (case count_enables h now' rest
                  (if r = Returned then success_count + 1 else success_count) of
             (n, trace) \<Rightarrow> (n, (now', Result Enable bus now r) # trace)))"

text \<open>
  The first \<open>submit\<close> loop, at time 0 on the fresh pool, and the second, at time
  \<open>t2\<close> on the pool as the first left it: the futures and the pool afterwards.
\<close>

definition disable_futures ::
  "host \<Rightarrow> USBBusInfo list \<Rightarrow> (USBBusInfo \<times> rat \<times> rat) list \<times> rat list" where
  "disable_futures h buses = submit_all h Disable 0 buses (replicate (length buses) 0)"

definition enable_futures ::
  "host \<Rightarrow> USBBusInfo list \<Rightarrow> rat \<Rightarrow> (USBBusInfo \<times> rat \<times> rat) list \<times> rat list" where
  "enable_futures h buses t2 = submit_all h Enable t2 buses (snd (disable_futures h buses))"

text \<open>
  \<open>reset_buses_parallel\<close> on the set \<open>buses\<close>, given in its iteration order: the
  returned count (or the exception that leaves the function) and the trace.
  Submitting takes no time in the model.
\<close>

definition reset_buses_parallel ::
  "host \<Rightarrow> USBBusInfo list \<Rightarrow> pyfloat \<Rightarrow> (exn + int) \<times> (rat \<times> action) list" where
  "reset_buses_parallel h buses reset_delay =
     (if buses = [] then (Inr 0, [])
      else
        (let disable_writes = map (\<lambda>b. (0, Write (sysfs_path b) ''0\<newline>'')) buses in
         case await_disables h 0 (fst (disable_futures h buses)) of (t1, disabled) \<Rightarrow>
           (case time_sleep reset_delay of
              Inl e \<Rightarrow> (Inl e, disable_writes @ disabled)
            | Inr d \<Rightarrow>
                (let t2 = t1 + d;
                     enable_writes = map (\<lambda>b. (t2, Write (sysfs_path b) ''1\<newline>'')) buses in
                 case count_enables h t2 (fst (enable_futures h buses t2)) 0 of
                   (success_count, enabled) \<Rightarrow>
                     (Inr success_count,
                      disable_writes @ disabled @ [(t1, Sleep d)]
                        @ enable_writes @ enabled)))))"

section \<open>main\<close>

definition check_permissions :: "host \<Rightarrow> bool" where
  "check_permissions h = (geteuid h = 0)"

text \<open>The three \<open>except\<close> clauses of \<open>main\<close>.\<close>

fun exit_code_of :: "exn \<Rightarrow> int" where
  "exit_code_of USBBusResetError = 1"
| "exit_code_of KeyboardInterrupt = 130"
| "exit_code_of _ = 1"

text \<open>
  The body of \<open>main\<close>, with the function it calls to find the buses as a parameter:
  the exit code, the probes of discovery and the coordinator's trace.
\<close>

definition main_with ::
  "(host \<Rightarrow> int \<Rightarrow> (exn + USBBusInfo list) \<times> probe list)
     \<Rightarrow> host \<Rightarrow> pyfloat option \<Rightarrow> int option \<Rightarrow> int \<times> probe list \<times> (rat \<times> action) list" where
  "main_with locate h reset_delay vendor_id =
     (if \<not> check_permissions h then (1, [], [])
      else
        (let delay = py_or reset_delay DEFAULT_RESET_DELAY;
             vid = py_or vendor_id ELO_VENDOR_ID in
         case locate h vid of
           (Inl e, probes) \<Rightarrow> (exit_code_of e, probes, [])
         | (Inr buses, probes) \<Rightarrow>
             if buses = [] then (0, probes, [])
             else
               (case reset_buses_parallel h buses delay of
                  (Inl e, trace) \<Rightarrow> (exit_code_of e, probes, trace)
                | (Inr success_count, trace) \<Rightarrow>
                    (if success_count = int (length buses) then 0
                     else if success_count > 0 then 2
                     else 1, probes, trace))))"

text \<open>\<open>main\<close> calls \<open>find_elo_buses\<close>.\<close>

definition main ::
  "host \<Rightarrow> pyfloat option \<Rightarrow> int option \<Rightarrow> int \<times> probe list \<times> (rat \<times> action) list" where
  "main h reset_delay vendor_id = main_with find_elo_buses h reset_delay vendor_id"

section \<open>Reading a trace\<close>

text \<open>The submitted writes of a trace, as (path, text) pairs in submission order.\<close>

fun written :: "(rat \<times> action) list \<Rightarrow> (string \<times> string) list" where
  "written [] = []"
| "written ((t, Write p s) # trace) = (p, s) # written trace"
| "written ((t, a) # trace) = written trace"

text \<open>
  Whether a trace holds a wait of phase \<open>ph\<close> on the write of \<open>b\<close> that
  returned; a bus is fully reset in a trace when the waits on its phase-1 write and on
  its phase-2 write both returned.
\<close>

fun returned_in :: "phase \<Rightarrow> USBBusInfo \<Rightarrow> (rat \<times> action) list \<Rightarrow> bool" where
  "returned_in ph b [] = False"
| "returned_in ph b ((t, Result ph' b' w r) # trace) =
     (if ph' = ph \<and> b' = b \<and> r = Returned then True else returned_in ph b trace)"
| "returned_in ph b ((t, a) # trace) = returned_in ph b trace"

text \<open>Whether a trace holds a wait of phase \<open>ph\<close> that timed out.\<close>

fun timed_out :: "phase \<Rightarrow> (rat \<times> action) list \<Rightarrow> bool" where
  "timed_out ph [] = False"
| "timed_out ph ((t, Result ph' b w r) # trace) =
     (if ph' = ph \<and> r = TimedOut then True else timed_out ph trace)"
| "timed_out ph ((t, a) # trace) = timed_out ph trace"


section \<open>Concrete hosts\<close>

definition bus_1 :: USBBusInfo where
  "bus_1 = \<lparr>bus_number = 1, device_count = 2, sysfs_path = sysfs_path_of 1\<rparr>"

definition bus_3 :: USBBusInfo where
  "bus_3 = \<lparr>bus_number = 3, device_count = 1, sysfs_path = sysfs_path_of 3\<rparr>"

text \<open>
  Run as root; two Elo devices on bus 1 and one on bus 3; both control paths exist;
  every write returns at once.
\<close>

definition host_two_buses :: host where
  "host_two_buses =
     \<lparr>geteuid = 0,
      usb_find = (\<lambda>vid. (if vid = 0x04E7 then [1, 1, 3] else [], None)),
      path_exists = (\<lambda>i p. Inr True),
      write_takes = (\<lambda>ph b. 0),
      write_fails = (\<lambda>ph b. False)\<rparr>"

text \<open>The same host, where every phase-1 write raises (say \<open>PermissionError\<close>).\<close>

definition host_disable_fails :: host where
  "host_disable_fails = host_two_buses\<lparr>write_fails := (\<lambda>ph b. ph = Disable)\<rparr>"

text \<open>The same host, where only the phase-1 write of bus 1 raises.\<close>

definition host_bus_1_fails :: host where
  "host_bus_1_fails =
     host_two_buses\<lparr>write_fails := (\<lambda>ph b. ph = Disable \<and> bus_number b = 1)\<rparr>"



text \<open>The same host, where the phase-1 write of bus 1 blocks for five seconds.\<close>

definition host_slow_disable :: host where
  "host_slow_disable =
     host_two_buses\<lparr>write_takes :=
       (\<lambda>ph b. if ph = Disable \<and> bus_number b = 1 then 5 else 0)\<rparr>"

text \<open>The same host, where every write on bus 1 blocks for ten seconds.\<close>

definition host_bus_1_hangs :: host where
  "host_bus_1_hangs =
     host_two_buses\<lparr>write_takes := (\<lambda>ph b. if bus_number b = 1 then 10 else 0)\<rparr>"

text \<open>
  Three devices on bus 3, whose control path is there at the second sighting only.
\<close>

definition host_late_path :: host where
  "host_late_path =
     host_two_buses\<lparr>usb_find := (\<lambda>vid. ([3, 3, 3], None)),
       path_exists := (\<lambda>i p. Inr (i = 1))\<rparr>"

text \<open>Two devices on bus 3, which has no control path, and one on bus 1, which has.\<close>

definition host_no_path_3 :: host where
  "host_no_path_3 =
     host_two_buses\<lparr>usb_find := (\<lambda>vid. ([3, 1, 3], None)),
       path_exists := (\<lambda>i p. Inr (p = sysfs_path_of 1))\<rparr>"

text \<open>The enumeration yields one device and then raises.\<close>

definition host_usb_error :: host where
  "host_usb_error = host_two_buses\<lparr>usb_find := (\<lambda>vid. ([1], Some USBError))\<rparr>"


text \<open>
  The enumeration succeeds, and the existence check of a control path raises (say
  \<open>PermissionError\<close>).
\<close>

definition host_exists_raises :: host where
  "host_exists_raises = host_two_buses\<lparr>path_exists := (\<lambda>i p. Inl OSError)\<rparr>"

text \<open>
  A function to find the buses that returns the descriptors of buses 1 and 3, as
  \<open>find_elo_buses\<close> would on \<open>host_two_buses\<close> were the descriptors hashable.
\<close>

definition locate_two_buses :: "host \<Rightarrow> int \<Rightarrow> (exn + USBBusInfo list) \<times> probe list" where
  "locate_two_buses h vendor_id = (Inr [bus_1, bus_3], [Find vendor_id])"

section \<open>Lemmas\<close>

subsection \<open>The control path determines the bus number\<close>

lemma digits_value_snoc: "digits_value (s @ [c]) = 10 * digits_value s + (of_char c - 48)"
  by (simp add: digits_value_def)

lemma of_char_digit_char: "d < 10 \<Longrightarrow> of_char (digit_char d) = (48 + d :: nat)"
  by (simp add: digit_char_def)

lemma digits_value_str_nat: "digits_value (str_nat n) = n"
proof (induction n rule: str_nat.induct)
  case (1 n)
  show ?case
  proof (cases "n < 10")
    case True
    then show ?thesis
      by (subst str_nat.simps) (simp add: digits_value_def of_char_digit_char)
  next
    case False
    then have "digits_value (str_nat (n div 10)) = n div 10"
      using "1.IH" by simp
    with False show ?thesis
      by (subst str_nat.simps) (simp add: digits_value_snoc of_char_digit_char)
  qed
qed

lemma minus_notin_str_nat: "CHR ''-'' \<notin> set (str_nat n)"
proof (induction n rule: str_nat.induct)
  case (1 n)
  have d: "digit_char k \<noteq> CHR ''-''" if "k < 10" for k
  proof
    assume "digit_char k = CHR ''-''"
    then have "(of_char (digit_char k) :: nat) = of_char CHR ''-''" by simp
    with that show False by (simp add: of_char_digit_char)
  qed
  show ?case
  proof (cases "n < 10")
    case True
    then show ?thesis using d [of n] by (subst str_nat.simps) auto
  next
    case False
    then show ?thesis using "1.IH" d [of "n mod 10"] by (subst str_nat.simps) auto
  qed
qed

lemma str_nat_inj: "str_nat m = str_nat n \<Longrightarrow> m = n"
  by (metis digits_value_str_nat)

lemma str_int_inj: "str_int a = str_int b \<Longrightarrow> a = b"
proof -
  assume eq: "str_int a = str_int b"
  have nm: "str_nat n \<noteq> CHR ''-'' # s" for n s
    using minus_notin_str_nat [of n] by (metis list.set_intros(1))
  show "a = b"
  proof (cases "a < 0"; cases "b < 0")
    assume "a < 0" "b < 0"
    with eq have "nat (- a) = nat (- b)" by (simp add: str_int_def str_nat_inj)
    with \<open>a < 0\<close> \<open>b < 0\<close> show ?thesis by simp
  next
    assume "a < 0" "\<not> b < 0"
    with eq nm show ?thesis by (simp add: str_int_def) metis
  next
    assume "\<not> a < 0" "b < 0"
    with eq nm show ?thesis by (simp add: str_int_def)
  next
    assume "\<not> a < 0" "\<not> b < 0"
    with eq have "nat a = nat b" by (simp add: str_int_def str_nat_inj)
    with \<open>\<not> a < 0\<close> \<open>\<not> b < 0\<close> show ?thesis by simp
  qed
qed

lemma sysfs_path_of_inj: "sysfs_path_of a = sysfs_path_of b \<longleftrightarrow> a = b"
  by (auto simp: sysfs_path_of_def dest: str_int_inj)

subsection \<open>The discovery loop\<close>

lemma scan_devices_probes:
  "scan_devices ex i ds bs ps =
     (fst (scan_devices ex i ds bs []), ps @ fst (snd (scan_devices ex i ds bs [])),
      snd (snd (scan_devices ex i ds bs [])))"
proof (induction ds arbitrary: i bs ps)
  case Nil
  show ?case by simp
next
  case (Cons d ds)
  note IH = Cons.IH
  show ?case
  proof (cases "map_of bs d")
    case (Some y)
    then show ?thesis using IH [of "Suc i" "increment_count d bs" ps] by simp
  next
    case None
    let ?p = "Exists (sysfs_path_of d)"
    show ?thesis
    proof (cases "ex i (sysfs_path_of d)")
      case (Inl e)
      with None show ?thesis by (simp add: Let_def)
    next
      case (Inr present)
      let ?bs = "bs @ [(d, \<lparr>bus_number = d, device_count = 1, sysfs_path = sysfs_path_of d\<rparr>)]"
      show ?thesis
      proof (cases present)
        case False
        with None Inr show ?thesis
          using IH [of "Suc i" bs "ps @ [?p]"] IH [of "Suc i" bs "[?p]"] by (simp add: Let_def)
      next
        case True
        with None Inr show ?thesis
          using IH [of "Suc i" ?bs "ps @ [?p]"] IH [of "Suc i" ?bs "[?p]"]
          by (simp add: Let_def)
      qed
    qed
  qed
qed

lemma scan_devices_from_Find:
  "scan_devices (path_exists h) 0 devices [] [Find vid] =
     (fst (scan_devices (path_exists h) 0 devices [] []),
      Find vid # fst (snd (scan_devices (path_exists h) 0 devices [] [])),
      check_raised h devices)"
  by (subst scan_devices_probes) (simp add: check_raised_def)

lemma fst_find_elo_buses:
  assumes "usb_find h vid = (devices, failure)"
  shows "fst (find_elo_buses h vid) =
     (case (if check_raised h devices = None then failure else check_raised h devices) of
        Some e \<Rightarrow> if is_Exception e then Inl USBBusResetError else Inl e
      | None \<Rightarrow> py_set (accepted_buses h devices))"
  using assms
  by (simp add: find_elo_buses_def scan_devices_from_Find accepted_buses_def
      split: option.splits)

lemma snd_find_elo_buses:
  assumes "usb_find h vid = (devices, failure)"
  shows "snd (find_elo_buses h vid) =
     Find vid # fst (snd (scan_devices (path_exists h) 0 devices [] []))"
  using assms
  by (simp add: find_elo_buses_def scan_devices_from_Find split: option.splits)

lemma map_of_increment_count:
  "map_of (increment_count k bs) b = None \<longleftrightarrow> map_of bs b = None"
  by (induction bs) (auto split: if_splits)

lemma map_of_increment_count_eq:
  "map_of (increment_count d bs) b =
     (if b = d then map_option (\<lambda>v. v\<lparr>device_count := device_count v + 1\<rparr>) (map_of bs d)
      else map_of bs b)"
  by (induction bs) (auto split: if_splits)

lemma map_fst_increment_count: "map fst (increment_count d bs) = map fst bs"
  by (induction bs) (auto split: if_splits)

lemma increment_count_keys:
  "\<forall>(k, v)\<in>set bs. bus_number v = k \<Longrightarrow> \<forall>(k, v)\<in>set (increment_count d bs). bus_number v = k"
  by (induction bs) (auto split: if_splits)

text \<open>The step of the loop, by cases.\<close>

lemma scan_devices_known:
  "map_of bs d = Some y \<Longrightarrow>
     scan_devices ex i (d # ds) bs ps = scan_devices ex (Suc i) ds (increment_count d bs) ps"
  by simp

lemma scan_devices_raises:
  "map_of bs d = None \<Longrightarrow> ex i (sysfs_path_of d) = Inl e \<Longrightarrow>
     scan_devices ex i (d # ds) bs ps = (bs, ps @ [Exists (sysfs_path_of d)], Some e)"
  by (simp add: Let_def)

lemma scan_devices_missing:
  "map_of bs d = None \<Longrightarrow> ex i (sysfs_path_of d) = Inr False \<Longrightarrow>
     scan_devices ex i (d # ds) bs ps =
       scan_devices ex (Suc i) ds bs (ps @ [Exists (sysfs_path_of d)])"
  by (simp add: Let_def)

lemma scan_devices_found:
  "map_of bs d = None \<Longrightarrow> ex i (sysfs_path_of d) = Inr True \<Longrightarrow>
     scan_devices ex i (d # ds) bs ps =
       scan_devices ex (Suc i) ds
         (bs @ [(d, \<lparr>bus_number = d, device_count = 1, sysfs_path = sysfs_path_of d\<rparr>)])
         (ps @ [Exists (sysfs_path_of d)])"
  by (simp add: Let_def)

lemma scan_devices_cases:
  obtains (known) y where "map_of bs d = Some y"
  | (raises) e where "map_of bs d = None" "ex i (sysfs_path_of d) = Inl e"
  | (missing) "map_of bs d = None" "ex i (sysfs_path_of d) = Inr False"
  | (found) "map_of bs d = None" "ex i (sysfs_path_of d) = Inr True"
proof (cases "map_of bs d")
  case None
  then show ?thesis
    using raises missing found
    by (cases "ex i (sysfs_path_of d)") (metis (full_types))+
next
  case (Some y)
  then show ?thesis by (rule known)
qed

declare scan_devices.simps(2) [simp del]

lemma scan_devices_keys:
  "\<forall>(k, v)\<in>set bs. bus_number v = k \<Longrightarrow>
     \<forall>(k, v)\<in>set (fst (scan_devices ex i ds bs ps)). bus_number v = k"
proof (induction ds arbitrary: i bs ps)
  case Nil
  then show ?case by simp
next
  case (Cons d ds)
  show ?case
  proof (cases rule: scan_devices_cases [where bs = bs and d = d and ex = ex and i = i])
    case (known y)
    then show ?thesis
      using Cons.IH [OF increment_count_keys [OF Cons.prems]]
      by (simp add: scan_devices_known)
  next
    case (raises e)
    then show ?thesis using Cons.prems by (simp add: scan_devices_raises)
  next
    case missing
    then show ?thesis using Cons.IH [OF Cons.prems] by (simp add: scan_devices_missing)
  next
    case found
    let ?bs = "bs @ [(d, \<lparr>bus_number = d, device_count = 1, sysfs_path = sysfs_path_of d\<rparr>)]"
    have "\<forall>(k, v)\<in>set ?bs. bus_number v = k" using Cons.prems by auto
    from Cons.IH [OF this] found show ?thesis by (simp add: scan_devices_found)
  qed
qed

lemma scan_devices_distinct:
  "distinct (map fst bs) \<Longrightarrow> distinct (map fst (fst (scan_devices ex i ds bs ps)))"
proof (induction ds arbitrary: i bs ps)
  case Nil
  then show ?case by simp
next
  case (Cons d ds)
  show ?case
  proof (cases rule: scan_devices_cases [where bs = bs and d = d and ex = ex and i = i])
    case (known y)
    then show ?thesis
      using Cons.IH [of "increment_count d bs"] Cons.prems
      by (simp add: scan_devices_known map_fst_increment_count)
  next
    case (raises e)
    then show ?thesis using Cons.prems by (simp add: scan_devices_raises)
  next
    case missing
    then show ?thesis using Cons.IH [OF Cons.prems] by (simp add: scan_devices_missing)
  next
    case found
    then have "d \<notin> fst ` set bs" by (simp add: map_of_eq_None_iff)
    with Cons.prems have
      "distinct (map fst (bs @ [(d, \<lparr>bus_number = d, device_count = 1, sysfs_path = sysfs_path_of d\<rparr>)]))"
      by simp
    from Cons.IH [OF this] found show ?thesis by (simp add: scan_devices_found)
  qed
qed

text \<open>
  A bus whose path is absent at each of its sightings is checked at each of them and
  stays out of the dictionary, as long as the pass is not left by an exception.
\<close>

lemma scan_devices_absent:
  assumes "map_of bs b = None"
    and "\<forall>j<length ds. ds ! j = b \<longrightarrow> ex (i + j) (sysfs_path_of b) = Inr False"
    and "snd (snd (scan_devices ex i ds bs ps)) = None"
  shows "map_of (fst (scan_devices ex i ds bs ps)) b = None \<and>
         count_list (fst (snd (scan_devices ex i ds bs ps))) (Exists (sysfs_path_of b))
           = count_list ps (Exists (sysfs_path_of b)) + count_list ds b"
  using assms
proof (induction ds arbitrary: i bs ps)
  case Nil
  then show ?case by simp
next
  case (Cons d ds)
  have later: "\<forall>j<length ds. ds ! j = b \<longrightarrow> ex (Suc i + j) (sysfs_path_of b) = Inr False"
  proof (intro allI impI)
    fix j assume "j < length ds" "ds ! j = b"
    then have "Suc j < length (d # ds)" "(d # ds) ! Suc j = b" by simp_all
    with Cons.prems(2) have "ex (i + Suc j) (sysfs_path_of b) = Inr False" by blast
    then show "ex (Suc i + j) (sysfs_path_of b) = Inr False" by simp
  qed
  have here: "ex i (sysfs_path_of b) = Inr False" if "d = b"
    using Cons.prems(2) that by fastforce
  show ?case
  proof (cases rule: scan_devices_cases [where bs = bs and d = d and ex = ex and i = i])
    case (known y)
    with Cons.prems(1) have ne: "d \<noteq> b" by auto
    have "map_of (increment_count d bs) b = None"
      using Cons.prems(1) by (simp add: map_of_increment_count)
    from Cons.IH [OF this later] Cons.prems(3) known ne show ?thesis
      by (simp add: scan_devices_known)
  next
    case (raises e)
    with Cons.prems(3) show ?thesis by (simp add: scan_devices_raises)
  next
    case missing
    from Cons.IH [OF Cons.prems(1) later, of "ps @ [Exists (sysfs_path_of d)]"]
      Cons.prems(3) missing
    show ?thesis by (simp add: scan_devices_missing sysfs_path_of_inj)
  next
    case found
    with here have ne: "d \<noteq> b" by auto
    let ?bs = "bs @ [(d, \<lparr>bus_number = d, device_count = 1, sysfs_path = sysfs_path_of d\<rparr>)]"
    have "map_of ?bs b = None" using Cons.prems(1) ne by (simp add: map_add_def)
    from Cons.IH [OF this later, of "ps @ [Exists (sysfs_path_of d)]"] Cons.prems(3) found ne
    show ?thesis by (simp add: scan_devices_found sysfs_path_of_inj)
  qed
qed

text \<open>
  A bus that is in the dictionary is not checked again: each further device on it is
  counted.
\<close>

lemma scan_devices_counted:
  assumes "map_of bs b = Some v"
    and "snd (snd (scan_devices ex i ds bs ps)) = None"
  shows "map_of (fst (scan_devices ex i ds bs ps)) b
           = Some (v\<lparr>device_count := device_count v + int (count_list ds b)\<rparr>) \<and>
         count_list (fst (snd (scan_devices ex i ds bs ps))) (Exists (sysfs_path_of b))
           = count_list ps (Exists (sysfs_path_of b))"
  using assms
proof (induction ds arbitrary: i bs ps v)
  case Nil
  then show ?case by simp
next
  case (Cons d ds)
  show ?case
  proof (cases rule: scan_devices_cases [where bs = bs and d = d and ex = ex and i = i])
    case (known y)
    show ?thesis
    proof (cases "d = b")
      case True
      with known Cons.prems(1) have
        "map_of (increment_count d bs) b = Some (v\<lparr>device_count := device_count v + 1\<rparr>)"
        by (simp add: map_of_increment_count_eq)
      from Cons.IH [OF this] Cons.prems(2) known True show ?thesis
        by (simp add: scan_devices_known add.assoc)
    next
      case False
      with Cons.prems(1) have "map_of (increment_count d bs) b = Some v"
        by (simp add: map_of_increment_count_eq)
      from Cons.IH [OF this] Cons.prems(2) known False show ?thesis
        by (simp add: scan_devices_known)
    qed
  next
    case (raises e)
    with Cons.prems(2) show ?thesis by (simp add: scan_devices_raises)
  next
    case missing
    with Cons.prems(1) have ne: "d \<noteq> b" by auto
    from Cons.IH [OF Cons.prems(1), of "Suc i" "ps @ [Exists (sysfs_path_of d)]"]
      Cons.prems(2) missing ne
    show ?thesis by (simp add: scan_devices_missing sysfs_path_of_inj)
  next
    case found
    with Cons.prems(1) have ne: "d \<noteq> b" by auto
    let ?bs = "bs @ [(d, \<lparr>bus_number = d, device_count = 1, sysfs_path = sysfs_path_of d\<rparr>)]"
    have "map_of ?bs b = Some v" using Cons.prems(1) by (simp add: map_add_def)
    from Cons.IH [OF this, of "Suc i" "ps @ [Exists (sysfs_path_of d)]"]
      Cons.prems(2) found ne
    show ?thesis by (simp add: scan_devices_found sysfs_path_of_inj)
  qed
qed

text \<open>
  The first sighting at which the path is there: the sightings before it are checked
  and skipped, this one is checked and makes the entry, the later ones are counted.
\<close>

lemma scan_devices_first_present:
  assumes "map_of bs b = None"
    and "\<forall>j<length pre. pre ! j = b \<longrightarrow> ex (i + j) (sysfs_path_of b) = Inr False"
    and "ex (i + length pre) (sysfs_path_of b) = Inr True"
    and "snd (snd (scan_devices ex i (pre @ b # post) bs ps)) = None"
  shows "map_of (fst (scan_devices ex i (pre @ b # post) bs ps)) b
           = Some \<lparr>bus_number = b, device_count = 1 + int (count_list post b),
                  sysfs_path = sysfs_path_of b\<rparr> \<and>
         count_list (fst (snd (scan_devices ex i (pre @ b # post) bs ps)))
             (Exists (sysfs_path_of b))
           = count_list ps (Exists (sysfs_path_of b)) + count_list pre b + 1"
  using assms
proof (induction pre arbitrary: i bs ps)
  case Nil
  let ?v = "\<lparr>bus_number = b, device_count = 1, sysfs_path = sysfs_path_of b\<rparr>"
  from Nil have f: "scan_devices ex i (b # post) bs ps =
      scan_devices ex (Suc i) post (bs @ [(b, ?v)]) (ps @ [Exists (sysfs_path_of b)])"
    by (simp add: scan_devices_found)
  have "map_of (bs @ [(b, ?v)]) b = Some ?v" using Nil.prems(1) by (simp add: map_add_def)
  from scan_devices_counted [OF this, of ex "Suc i" post "ps @ [Exists (sysfs_path_of b)]"]
    Nil.prems(4) f
  show ?case by simp
next
  case (Cons d pre)
  have later: "\<forall>j<length pre. pre ! j = b \<longrightarrow> ex (Suc i + j) (sysfs_path_of b) = Inr False"
  proof (intro allI impI)
    fix j assume "j < length pre" "pre ! j = b"
    then have "Suc j < length (d # pre)" "(d # pre) ! Suc j = b" by simp_all
    with Cons.prems(2) have "ex (i + Suc j) (sysfs_path_of b) = Inr False" by blast
    then show "ex (Suc i + j) (sysfs_path_of b) = Inr False" by simp
  qed
  have there: "ex (Suc i + length pre) (sysfs_path_of b) = Inr True"
    using Cons.prems(3) by simp
  have here: "ex i (sysfs_path_of b) = Inr False" if "d = b"
    using Cons.prems(2) that by fastforce
  show ?case
  proof (cases rule: scan_devices_cases [where bs = bs and d = d and ex = ex and i = i])
    case (known y)
    with Cons.prems(1) have ne: "d \<noteq> b" by auto
    have "map_of (increment_count d bs) b = None"
      using Cons.prems(1) by (simp add: map_of_increment_count)
    from Cons.IH [OF this later there] Cons.prems(4) known ne show ?thesis
      by (simp add: scan_devices_known)
  next
    case (raises e)
    with Cons.prems(4) show ?thesis by (simp add: scan_devices_raises)
  next
    case missing
    from Cons.IH [OF Cons.prems(1) later there, of "ps @ [Exists (sysfs_path_of d)]"]
      Cons.prems(4) missing
    show ?thesis by (simp add: scan_devices_missing sysfs_path_of_inj)
  next
    case found
    with here have ne: "d \<noteq> b" by auto
    let ?bs = "bs @ [(d, \<lparr>bus_number = d, device_count = 1, sysfs_path = sysfs_path_of d\<rparr>)]"
    have "map_of ?bs b = None" using Cons.prems(1) ne by (simp add: map_add_def)
    from Cons.IH [OF this later there, of "ps @ [Exists (sysfs_path_of d)]"]
      Cons.prems(4) found ne
    show ?thesis by (simp add: scan_devices_found sysfs_path_of_inj)
  qed
qed

text \<open>Where no existence check raises, the loop is not left by an exception.\<close>

lemma scan_devices_no_raise:
  assumes "\<And>i p e. ex i p \<noteq> Inl e"
  shows "snd (snd (scan_devices ex i ds bs ps)) = None"
proof (induction ds arbitrary: i bs ps)
  case Nil
  show ?case by simp
next
  case (Cons d ds)
  show ?case
  proof (cases rule: scan_devices_cases [where bs = bs and d = d and ex = ex and i = i])
    case (known y)
    then show ?thesis using Cons.IH by (simp add: scan_devices_known)
  next
    case (raises e)
    with assms show ?thesis by blast
  next
    case missing
    then show ?thesis using Cons.IH by (simp add: scan_devices_missing)
  next
    case found
    then show ?thesis using Cons.IH by (simp add: scan_devices_found)
  qed
qed

text \<open>
  On a file system that does not change during the pass (\<open>E\<close> says which paths
  exist), the dictionary ends with one entry per distinct bus number whose control
  path exists, counting the devices on that bus.
\<close>

lemma scan_devices_stable:
  "map_of (fst (scan_devices (\<lambda>i p. Inr (E p)) i ds bs ps)) b =
     (case map_of bs b of
        Some v \<Rightarrow> Some (v\<lparr>device_count := device_count v + int (count_list ds b)\<rparr>)
      | None \<Rightarrow>
          if b \<in> set ds \<and> E (sysfs_path_of b)
          then Some \<lparr>bus_number = b, device_count = int (count_list ds b),
                 sysfs_path = sysfs_path_of b\<rparr>
          else None)"
proof (induction ds arbitrary: i bs ps)
  case Nil
  show ?case by (simp split: option.splits)
next
  case (Cons d ds)
  show ?case
  proof (cases "map_of bs d")
    case (Some y)
    then show ?thesis
      by (simp add: scan_devices_known Cons.IH map_of_increment_count_eq add.assoc
          split: option.splits)
  next
    case None
    show ?thesis
    proof (cases "E (sysfs_path_of d)")
      case False
      with None show ?thesis
        by (auto simp: scan_devices_missing Cons.IH split: option.splits)
    next
      case True
      with None show ?thesis
        by (auto simp: scan_devices_found Cons.IH map_add_def split: option.splits)
    qed
  qed
qed

lemma not_accepted:
  assumes "map_of (fst (scan_devices (path_exists h) 0 devices [] [])) b = None"
  shows "b \<notin> bus_number ` set (accepted_buses h devices)"
proof
  assume "b \<in> bus_number ` set (accepted_buses h devices)"
  then obtain k v where kv: "(k, v) \<in> set (fst (scan_devices (path_exists h) 0 devices [] []))"
    and b: "bus_number v = b"
    by (auto simp: accepted_buses_def)
  have "\<forall>(k, v)\<in>set (fst (scan_devices (path_exists h) 0 devices [] [])). bus_number v = k"
    by (rule scan_devices_keys) simp
  with kv b have "k = b" by auto
  with kv have "b \<in> fst ` set (fst (scan_devices (path_exists h) 0 devices [] []))"
    by force
  with assms show False by (simp add: map_of_eq_None_iff)
qed

lemma accepted:
  assumes "map_of (fst (scan_devices (path_exists h) 0 devices [] [])) b = Some v"
  shows "v \<in> set (accepted_buses h devices)"
proof -
  from assms have "(b, v) \<in> set (fst (scan_devices (path_exists h) 0 devices [] []))"
    by (rule map_of_SomeD)
  then show ?thesis by (force simp: accepted_buses_def)
qed

lemma accepted_buses_stable:
  assumes "path_exists h = (\<lambda>i p. Inr (E p))"
  shows "distinct (map bus_number (accepted_buses h devices))
       \<and> set (accepted_buses h devices) =
           (\<lambda>b. \<lparr>bus_number = b, device_count = int (count_list devices b),
                  sysfs_path = sysfs_path_of b\<rparr>)
             ` {b \<in> set devices. E (sysfs_path_of b)}"
proof -
  let ?dict = "fst (scan_devices (path_exists h) 0 devices [] [])"
  let ?mk = "\<lambda>b. \<lparr>bus_number = b, device_count = int (count_list devices b),
                  sysfs_path = sysfs_path_of b\<rparr>"
  have d: "distinct (map fst ?dict)" by (rule scan_devices_distinct) simp
  have k: "\<forall>(k, v)\<in>set ?dict. bus_number v = k" by (rule scan_devices_keys) simp
  then have e: "map (bus_number \<circ> snd) ?dict = map fst ?dict"
    by (intro map_cong) auto
  have 1: "distinct (map bus_number (accepted_buses h devices))"
    unfolding accepted_buses_def map_map e by (rule d)
  have m: "map_of ?dict b =
      (if b \<in> set devices \<and> E (sysfs_path_of b) then Some (?mk b) else None)" for b
    using scan_devices_stable [of E 0 devices "[]" "[]" b] assms by simp
  have "(k, v) \<in> set ?dict \<longleftrightarrow> k \<in> set devices \<and> E (sysfs_path_of k) \<and> v = ?mk k" for k v
    using map_of_eq_Some_iff [OF d, of k v] m [of k] by (auto split: if_splits)
  then have "set ?dict = (\<lambda>b. (b, ?mk b)) ` {b \<in> set devices. E (sysfs_path_of b)}"
    by auto
  then have "snd ` set ?dict = ?mk ` {b \<in> set devices. E (sysfs_path_of b)}"
    by (simp add: image_image)
  then have 2: "set (accepted_buses h devices) = ?mk ` {b \<in> set devices. E (sysfs_path_of b)}"
    by (simp add: accepted_buses_def)
  from 1 2 show ?thesis by simp
qed

subsection \<open>main\<close>

text \<open>
  Whatever \<open>find_elo_buses\<close> returns is empty, so \<open>main\<close> never calls the coordinator:
  it writes nothing and its exit code is 0, 1 or 130.
\<close>

lemma find_elo_buses_returns_empty:
  assumes "find_elo_buses h vid = (Inr buses, probes)"
  shows "buses = []"
proof -
  obtain devices failure where u: "usb_find h vid = (devices, failure)"
    by (cases "usb_find h vid")
  from assms have r: "fst (find_elo_buses h vid) = Inr buses" by simp
  with fst_find_elo_buses [OF u] have "py_set (accepted_buses h devices) = Inr buses"
    by (auto split: option.splits if_splits)
  then show ?thesis by (cases "accepted_buses h devices") simp_all
qed

lemma main_never_resets:
  "snd (snd (main h reset_delay vendor_id)) = []
   \<and> (fst (main h reset_delay vendor_id) = 0 \<or> fst (main h reset_delay vendor_id) = 1
        \<or> fst (main h reset_delay vendor_id) = 130)"
proof (cases "check_permissions h")
  case False
  then show ?thesis by (simp add: main_def main_with_def)
next
  case True
  obtain r probes where f: "find_elo_buses h (py_or vendor_id ELO_VENDOR_ID) = (r, probes)"
    by (cases "find_elo_buses h (py_or vendor_id ELO_VENDOR_ID)")
  show ?thesis
  proof (cases r)
    case (Inl e)
    with True f show ?thesis by (cases e) (simp_all add: main_def main_with_def)
  next
    case (Inr buses)
    with f have "buses = []" using find_elo_buses_returns_empty by blast
    with True f Inr show ?thesis by (simp add: main_def main_with_def)
  qed
qed

subsection \<open>The pool\<close>

lemma filter_remove1_length:
  "length (filter P ws) - 1 \<le> length (filter P (remove1 x ws))"
  by (induction ws) auto

lemma Min_le_now:
  assumes "filter (\<lambda>w. w \<le> now) workers \<noteq> []"
  shows "Min (set workers) \<le> (now :: rat)"
proof -
  from assms obtain w where "w \<in> set workers" "w \<le> now"
    by (metis (mono_tags, lifting) filter_False)
  then have "Min (set workers) \<le> w" by simp
  with \<open>w \<le> now\<close> show ?thesis by simp
qed

text \<open>
  With at least as many workers idle as tasks submitted, every task starts when it is
  submitted.
\<close>

lemma submit_all_immediate:
  assumes "length tasks \<le> length (filter (\<lambda>w. w \<le> now) workers)"
  shows "fst (submit_all h ph now tasks workers)
           = map (\<lambda>b. (b, now, now + write_takes h ph b)) tasks"
  using assms
proof (induction tasks arbitrary: workers)
  case Nil
  show ?case by simp
next
  case (Cons b tasks)
  let ?P = "\<lambda>w. w \<le> now"
  let ?idle = "Min (set workers)"
  let ?workers = "(now + write_takes h ph b) # remove1 ?idle workers"
  from Cons.prems have "filter ?P workers \<noteq> []" by auto
  then have idle: "?idle \<le> now" by (rule Min_le_now)
  then have r: "run_task now (write_takes h ph b) workers
                  = ((now, now + write_takes h ph b), ?workers)"
    by (simp add: run_task_def Let_def max_def)
  have "length tasks \<le> length (filter ?P workers) - 1" using Cons.prems by simp
  also have "\<dots> \<le> length (filter ?P (remove1 ?idle workers))"
    by (rule filter_remove1_length)
  also have "\<dots> \<le> length (filter ?P ?workers)" by simp
  finally have "fst (submit_all h ph now tasks ?workers)
                  = map (\<lambda>b. (b, now, now + write_takes h ph b)) tasks"
    by (rule Cons.IH)
  then show ?case by (simp add: r case_prod_beta)
qed


text \<open>The pool keeps its size, and a worker is idle from 0 or from the end of a task.\<close>

lemma submit_all_workers:
  assumes "workers \<noteq> []"
  shows "length (snd (submit_all h ph now tasks workers)) = length workers
       \<and> set (snd (submit_all h ph now tasks workers))
           \<subseteq> set workers \<union> (\<lambda>f. snd (snd f)) ` set (fst (submit_all h ph now tasks workers))"
  using assms
proof (induction tasks arbitrary: workers)
  case Nil
  show ?case by simp
next
  case (Cons b tasks)
  let ?idle = "Min (set workers)"
  let ?finish = "max now ?idle + write_takes h ph b"
  let ?workers = "?finish # remove1 ?idle workers"
  have r: "run_task now (write_takes h ph b) workers = ((max now ?idle, ?finish), ?workers)"
    by (simp add: run_task_def Let_def)
  from Cons.prems have "?idle \<in> set workers" by simp
  then have len: "length ?workers = length workers"
    by (simp add: length_remove1) (metis Cons.prems Suc_pred length_greater_0_conv)
  have sub: "set ?workers \<subseteq> insert ?finish (set workers)"
    using set_remove1_subset [of ?idle workers] by auto
  have "?workers \<noteq> []" by simp
  from Cons.IH [OF this] len sub show ?case
    by (auto simp: r case_prod_beta)
qed

text \<open>Phase 1 meets a fresh pool of one worker per bus: every write starts at once.\<close>

lemma disable_futures_immediate:
  "fst (disable_futures h buses) = map (\<lambda>b. (b, 0, write_takes h Disable b)) buses"
  using submit_all_immediate [of buses 0 "replicate (length buses) 0" h Disable]
  by (simp add: disable_futures_def)

lemma time_sleep_nonneg: "time_sleep x = Inr d \<Longrightarrow> 0 \<le> d"
  by (cases x) (auto split: if_splits)

lemma time_sleep_Finite: "time_sleep x = Inr d \<Longrightarrow> x = Finite d"
  by (cases x) (auto split: if_splits)

subsection \<open>The coordinator\<close>

lemma written_append: "written (xs @ ys) = written xs @ written ys"
  by (induction xs rule: written.induct) simp_all

lemma written_submissions:
  "written (map (\<lambda>b. (t, Write (sysfs_path b) s)) buses) = map (\<lambda>b. (sysfs_path b, s)) buses"
  by (induction buses) simp_all

lemma written_await_disables: "written (snd (await_disables h now futures)) = []"
  by (induction futures arbitrary: now) (auto simp: case_prod_beta)

lemma written_count_enables: "written (snd (count_enables h now futures n)) = []"
  by (induction futures arbitrary: now n) (auto simp: case_prod_beta)

lemma await_disables_no_write: "(t, Write p s) \<notin> set (snd (await_disables h now futures))"
  by (induction futures arbitrary: now) (auto simp: case_prod_beta)

lemma count_enables_no_write: "(t, Write p s) \<notin> set (snd (count_enables h now futures n))"
  by (induction futures arbitrary: now n) (auto simp: case_prod_beta)


lemma written_reset_buses_parallel:
  "written (snd (reset_buses_parallel h buses reset_delay)) =
     map (\<lambda>b. (sysfs_path b, ''0\<newline>'')) buses
     @ (case time_sleep reset_delay of
          Inl e \<Rightarrow> []
        | Inr d \<Rightarrow> map (\<lambda>b. (sysfs_path b, ''1\<newline>'')) buses)"
  by (cases "time_sleep reset_delay")
    (simp_all add: reset_buses_parallel_def Let_def case_prod_beta written_append
      written_submissions written_await_disables written_count_enables)

lemma future_result_mono: "now \<le> fst (future_result now finish fails)"
  by (simp add: future_result_def)

lemma future_result_done:
  "future_result now finish fails = (u, r) \<Longrightarrow> r \<noteq> TimedOut \<Longrightarrow> finish \<le> u"
  by (auto simp: future_result_def split: if_splits)

lemma future_result_timeout:
  "future_result now finish fails = (u, TimedOut) \<Longrightarrow> u = now + 1 \<and> u < finish"
  by (auto simp: future_result_def split: if_splits)

lemma await_disables_mono: "now \<le> fst (await_disables h now futures)"
proof (induction futures arbitrary: now)
  case Nil
  show ?case by simp
next
  case (Cons x rest)
  obtain bus start finish where x: "x = (bus, start, finish)" by (cases x)
  obtain now' r where f: "future_result now finish (write_fails h Disable bus) = (now', r)"
    by (cases "future_result now finish (write_fails h Disable bus)")
  have "now \<le> now'" using future_result_mono [of now finish] f by (metis fst_conv)
  also have "now' \<le> fst (await_disables h now' rest)" by (rule Cons.IH)
  finally show ?case by (simp add: x f case_prod_beta)
qed

text \<open>
  Every future of the first loop is waited on: the wait ends before the loop does, when
  the write has finished or a second after the wait began.
\<close>

lemma await_disables_observed:
  assumes "(b, start, finish) \<in> set futures"
  shows "\<exists>w u r. (u, Result Disable b w r) \<in> set (snd (await_disables h now futures))
           \<and> now \<le> w \<and> w \<le> u \<and> u \<le> fst (await_disables h now futures)
           \<and> (r \<noteq> TimedOut \<longrightarrow> finish \<le> u)
           \<and> (r = TimedOut \<longrightarrow> u = w + 1 \<and> u < finish)"
  using assms
proof (induction futures arbitrary: now)
  case Nil
  then show ?case by simp
next
  case (Cons x rest)
  obtain bus s f where x: "x = (bus, s, f)" by (cases x)
  obtain now' r where fr: "future_result now f (write_fails h Disable bus) = (now', r)"
    by (cases "future_result now f (write_fails h Disable bus)")
  obtain t trace where a: "await_disables h now' rest = (t, trace)"
    by (cases "await_disables h now' rest")
  have le: "now \<le> now'" using future_result_mono [of now f] fr by (metis fst_conv)
  have le': "now' \<le> t" using await_disables_mono [of now' h rest] a by simp
  show ?case
  proof (cases "(b, start, finish) = (bus, s, f)")
    case True
    have "r \<noteq> TimedOut \<longrightarrow> finish \<le> now'"
      using future_result_done [OF fr] True by simp
    moreover have "r = TimedOut \<longrightarrow> now' = now + 1 \<and> now' < finish"
      using future_result_timeout [of now f _ now'] fr True by auto
    ultimately show ?thesis
      using True le le'
      by (rule_tac x = now in exI, rule_tac x = now' in exI, rule_tac x = r in exI)
        (simp add: x fr a)
  next
    case False
    with Cons.prems x have "(b, start, finish) \<in> set rest" by auto
    from Cons.IH [OF this, of now'] a obtain w u r' where
      "(u, Result Disable b w r') \<in> set trace" "now' \<le> w" "w \<le> u" "u \<le> t"
      "r' \<noteq> TimedOut \<longrightarrow> finish \<le> u" "r' = TimedOut \<longrightarrow> u = w + 1 \<and> u < finish"
      by auto
    then show ?thesis
      using le
      by (rule_tac x = w in exI, rule_tac x = u in exI, rule_tac x = r' in exI)
        (simp add: x fr a)
  qed
qed

lemma timed_out_append: "timed_out ph (xs @ ys) \<longleftrightarrow> timed_out ph xs \<or> timed_out ph ys"
  by (induction ph xs rule: timed_out.induct) simp_all

lemma timed_out_member:
  "(u, Result ph b w TimedOut) \<in> set trace \<Longrightarrow> timed_out ph trace"
  by (induction ph trace rule: timed_out.induct) (auto split: if_splits)

text \<open>The count is the number of enable waits that returned.\<close>

lemma count_enables_length: "length (snd (count_enables h now futures n)) = length futures"
  by (induction futures arbitrary: now n) (auto simp: case_prod_beta)

lemma count_enables_bounds:
  "n \<le> fst (count_enables h now futures n)
   \<and> fst (count_enables h now futures n) \<le> n + int (length futures)"
proof (induction futures arbitrary: now n)
  case Nil
  show ?case by simp
next
  case (Cons x rest)
  obtain bus start finish where x: "x = (bus, start, finish)" by (cases x)
  obtain now' r where fr: "future_result now finish (write_fails h Enable bus) = (now', r)"
    by (cases "future_result now finish (write_fails h Enable bus)")
  from Cons.IH [of "if r = Returned then n + 1 else n" now'] show ?case
    by (auto simp: x fr case_prod_beta split: if_splits)
qed



lemma count_enables_results:
  "e \<in> set (snd (count_enables h now futures n)) \<Longrightarrow> \<exists>u b w r. e = (u, Result Enable b w r)"
  by (induction futures arbitrary: now n) (auto simp: case_prod_beta)

lemma returned_in_append:
  "returned_in ph b (xs @ ys) \<longleftrightarrow> returned_in ph b xs \<or> returned_in ph b ys"
  by (induction ph b xs rule: returned_in.induct) simp_all


lemma reset_buses_parallel_slept:
  assumes "buses \<noteq> []" and "time_sleep reset_delay = Inr d"
  shows "snd (reset_buses_parallel h buses reset_delay) =
      (map (\<lambda>b. (0, Write (sysfs_path b) ''0\<newline>'')) buses
        @ snd (await_disables h 0 (fst (disable_futures h buses))))
      @ [(fst (await_disables h 0 (fst (disable_futures h buses))), Sleep d)]
      @ (map (\<lambda>b. (fst (await_disables h 0 (fst (disable_futures h buses))) + d,
                  Write (sysfs_path b) ''1\<newline>'')) buses
        @ snd (count_enables h (fst (await_disables h 0 (fst (disable_futures h buses))) + d)
            (fst (enable_futures h buses
               (fst (await_disables h 0 (fst (disable_futures h buses))) + d))) 0))"
  using assms by (simp add: reset_buses_parallel_def Let_def case_prod_beta)

lemma reset_buses_parallel_not_slept:
  assumes "buses \<noteq> []" and "time_sleep reset_delay = Inl e"
  shows "snd (reset_buses_parallel h buses reset_delay) =
      map (\<lambda>b. (0, Write (sysfs_path b) ''0\<newline>'')) buses
        @ snd (await_disables h 0 (fst (disable_futures h buses)))"
  using assms by (simp add: reset_buses_parallel_def Let_def case_prod_beta)

text \<open>
  When no phase-1 wait timed out, every worker is idle by the time of the second loop,
  and every phase-2 write starts when it is submitted.
\<close>

lemma enable_futures_immediate:
  assumes "time_sleep reset_delay = Inr d"
    and "\<not> timed_out Disable (snd (reset_buses_parallel h buses reset_delay))"
  shows "fst (enable_futures h buses (fst (await_disables h 0 (fst (disable_futures h buses))) + d))
           = map (\<lambda>b. (b, fst (await_disables h 0 (fst (disable_futures h buses))) + d,
                        fst (await_disables h 0 (fst (disable_futures h buses))) + d
                          + write_takes h Enable b)) buses"
proof (cases "buses = []")
  case True
  then show ?thesis by (simp add: enable_futures_def)
next
  case False
  let ?futures = "fst (disable_futures h buses)"
  let ?workers = "snd (disable_futures h buses)"
  let ?t1 = "fst (await_disables h 0 ?futures)"
  let ?t2 = "?t1 + d"
  have d: "0 \<le> d" using assms(1) by (rule time_sleep_nonneg)
  have t1: "0 \<le> ?t1" by (rule await_disables_mono)
  have no: "\<not> timed_out Disable (snd (await_disables h 0 ?futures))"
    using assms(2) reset_buses_parallel_slept [OF False assms(1), of h]
    by (simp add: timed_out_append)
  have fin: "finish \<le> ?t2" if "(b, start, finish) \<in> set ?futures" for b start finish
  proof -
    from await_disables_observed [OF that, of h 0] obtain w u r where
      o: "(u, Result Disable b w r) \<in> set (snd (await_disables h 0 ?futures))"
      and u: "u \<le> ?t1" and r: "r \<noteq> TimedOut \<longrightarrow> finish \<le> u"
      by blast
    from o no have "r \<noteq> TimedOut" using timed_out_member by blast
    with r u d show ?thesis by simp
  qed
  have fresh: "replicate (length buses) (0 :: rat) \<noteq> []" using False by simp
  from submit_all_workers [OF fresh, of h Disable 0 buses]
  have len: "length ?workers = length buses"
    and sub: "set ?workers \<subseteq> {0} \<union> (\<lambda>f. snd (snd f)) ` set ?futures"
    by (auto simp: disable_futures_def)
  have "w \<le> ?t2" if "w \<in> set ?workers" for w
  proof -
    from that sub have "w = 0 \<or> (\<exists>b start. (b, start, w) \<in> set ?futures)" by force
    then show ?thesis using fin t1 d by auto
  qed
  then have "filter (\<lambda>w. w \<le> ?t2) ?workers = ?workers" by (simp add: filter_id_conv)
  with len have "length buses \<le> length (filter (\<lambda>w. w \<le> ?t2) ?workers)" by simp
  from submit_all_immediate [OF this, of h Enable] show ?thesis
    by (simp add: enable_futures_def)
qed




section \<open>The claims\<close>

text \<open>
  Claim C1 (the returned count is the number of buses whose phase-1 write and phase-2
  write both succeeded). The code counts the phase-2 results only: on buses 1 and 3,
  when both phase-1 writes raise and both phase-2 writes return, it returns 2, where
  no bus has had both writes succeed.
\<close>

theorem success_count_ignores_disable:
  "fst (reset_buses_parallel host_disable_fails [bus_1, bus_3] (Finite 1)) = Inr 2
   \<and> write_fails host_disable_fails Disable bus_1
   \<and> write_fails host_disable_fails Disable bus_3"
  by code_simp

text \<open>
  Claim C2. When the pass reaches its end (neither the enumeration nor an existence
  check raises) and has accepted at least one bus, \<open>find_elo_buses\<close> raises
  \<open>TypeError\<close> (not \<open>USBBusResetError\<close>: the \<open>set\<close> call is outside the
  \<open>try\<close> block), and \<open>main\<close>, run with enough privilege, returns 1. When no bus
  was accepted it returns the empty set, and whenever it returns at all, it returns
  the empty set after a pass that accepted no bus.
\<close>

theorem find_elo_buses_unhashable:
  "(usb_find h vid = (devices, None) \<and> check_raised h devices = None
      \<and> accepted_buses h devices \<noteq> [] \<longrightarrow>
      fst (find_elo_buses h vid) = Inl TypeError
      \<and> (check_permissions h \<and> py_or vendor_id ELO_VENDOR_ID = vid \<longrightarrow>
           fst (main h reset_delay vendor_id) = 1))
   \<and> (usb_find h vid = (devices, None) \<and> check_raised h devices = None
        \<and> accepted_buses h devices = [] \<longrightarrow>
        fst (find_elo_buses h vid) = Inr [])
   \<and> (fst (find_elo_buses h vid) = Inr s \<longrightarrow>
        s = [] \<and> snd (usb_find h vid) = None \<and> check_raised h (fst (usb_find h vid)) = None
        \<and> accepted_buses h (fst (usb_find h vid)) = [])"
proof (intro conjI impI)
  assume a: "usb_find h vid = (devices, None) \<and> check_raised h devices = None
      \<and> accepted_buses h devices \<noteq> []"
  then show t: "fst (find_elo_buses h vid) = Inl TypeError"
    using fst_find_elo_buses [of h vid devices None]
    by (cases "accepted_buses h devices") simp_all
  assume "check_permissions h \<and> py_or vendor_id ELO_VENDOR_ID = vid"
  with t show "fst (main h reset_delay vendor_id) = 1"
    by (cases "find_elo_buses h vid") (simp add: main_def main_with_def)
next
  assume "usb_find h vid = (devices, None) \<and> check_raised h devices = None
        \<and> accepted_buses h devices = []"
  then show "fst (find_elo_buses h vid) = Inr []"
    using fst_find_elo_buses [of h vid devices None] by simp
next
  assume r: "fst (find_elo_buses h vid) = Inr s"
  obtain devices failure where u: "usb_find h vid = (devices, failure)"
    by (cases "usb_find h vid")
  from r fst_find_elo_buses [OF u] have c: "check_raised h devices = None"
    by (auto split: option.splits if_splits)
  with r fst_find_elo_buses [OF u] have f: "failure = None"
    by (auto split: option.splits if_splits)
  with c r fst_find_elo_buses [OF u] have "py_set (accepted_buses h devices) = Inr s" by simp
  then have "s = [] \<and> accepted_buses h devices = []"
    by (cases "accepted_buses h devices") simp_all
  with f c u show "s = []" "snd (usb_find h vid) = None"
    "check_raised h (fst (usb_find h vid)) = None"
    "accepted_buses h (fst (usb_find h vid)) = []"
    by simp_all
qed

text \<open>
  On the host with buses 1 and 3, and on the same host asked for a vendor it has not.
\<close>

theorem find_elo_buses_unhashable_witness:
  "usb_find host_two_buses ELO_VENDOR_ID = ([1, 1, 3], None)
   \<and> check_raised host_two_buses [1, 1, 3] = None
   \<and> accepted_buses host_two_buses [1, 1, 3] \<noteq> []
   \<and> check_permissions host_two_buses
   \<and> fst (find_elo_buses host_two_buses ELO_VENDOR_ID) = Inl TypeError
   \<and> fst (main host_two_buses None None) = 1
   \<and> usb_find host_two_buses 7 = ([], None)
   \<and> check_raised host_two_buses [] = None
   \<and> accepted_buses host_two_buses [] = []
   \<and> fst (find_elo_buses host_two_buses 7) = Inr []"
proof -
  have u: "usb_find host_two_buses ELO_VENDOR_ID = ([1, 1, 3], None)"
    by (simp add: host_two_buses_def ELO_VENDOR_ID_def)
  have r: "check_raised host_two_buses [1, 1, 3] = None" by code_simp
  have a: "accepted_buses host_two_buses [1, 1, 3] \<noteq> []" by code_simp
  have c: "check_permissions host_two_buses"
    by (simp add: check_permissions_def host_two_buses_def)
  have v: "py_or None ELO_VENDOR_ID = ELO_VENDOR_ID" by (simp add: py_or_def)
  have u': "usb_find host_two_buses 7 = ([], None)" by (simp add: host_two_buses_def)
  have r': "check_raised host_two_buses [] = None" by (simp add: check_raised_def)
  have a': "accepted_buses host_two_buses [] = []" by (simp add: accepted_buses_def)
  from find_elo_buses_unhashable [of host_two_buses ELO_VENDOR_ID "[1, 1, 3]" None None "[]"]
    find_elo_buses_unhashable [of host_two_buses 7 "[]" None None "[]"] u r a c v u' r' a'
  show ?thesis by simp
qed

text \<open>
  Claim C3, amended. In a pass that no existence check leaves by an exception: a bus
  whose control path is absent at every one of its sightings is checked once per
  sighting and is not accepted; and at the first sighting of a bus at which its path
  is there (absent at the sightings before, which were each checked and skipped), the
  bus is accepted, so that it ends with one plus the number of its later devices as
  count, and its path has been checked once per sighting up to this one and not
  again.
\<close>

theorem absent_path_rechecked:
  assumes "usb_find h vid = (devices, failure)" and "check_raised h devices = None"
  shows "((\<forall>i<length devices. devices ! i = b \<longrightarrow> path_exists h i (sysfs_path_of b) = Inr False)
           \<longrightarrow> b \<notin> bus_number ` set (accepted_buses h devices)
             \<and> count_list (snd (find_elo_buses h vid)) (Exists (sysfs_path_of b))
                 = count_list devices b)
       \<and> (\<forall>pre post.
            devices = pre @ b # post
            \<and> (\<forall>i<length pre. pre ! i = b \<longrightarrow> path_exists h i (sysfs_path_of b) = Inr False)
            \<and> path_exists h (length pre) (sysfs_path_of b) = Inr True
           \<longrightarrow> \<lparr>bus_number = b, device_count = 1 + int (count_list post b),
                  sysfs_path = sysfs_path_of b\<rparr> \<in> set (accepted_buses h devices)
             \<and> count_list (snd (find_elo_buses h vid)) (Exists (sysfs_path_of b))
                 = count_list pre b + 1)"
proof (intro conjI allI impI)
  have n: "snd (snd (scan_devices (path_exists h) 0 devices [] [])) = None"
    using assms(2) by (simp add: check_raised_def)
  have e: "map_of [] b = (None :: USBBusInfo option)" by simp
  {
    assume "\<forall>i<length devices. devices ! i = b \<longrightarrow> path_exists h i (sysfs_path_of b) = Inr False"
    with scan_devices_absent [OF e _ n]
    have m: "map_of (fst (scan_devices (path_exists h) 0 devices [] [])) b = None"
      and c: "count_list (fst (snd (scan_devices (path_exists h) 0 devices [] [])))
                (Exists (sysfs_path_of b)) = count_list devices b"
      by simp_all
    from m show "b \<notin> bus_number ` set (accepted_buses h devices)" by (rule not_accepted)
    from c show "count_list (snd (find_elo_buses h vid)) (Exists (sysfs_path_of b))
                   = count_list devices b"
      by (simp add: snd_find_elo_buses [OF assms(1)])
  }
  fix pre post
  assume a: "devices = pre @ b # post
      \<and> (\<forall>i<length pre. pre ! i = b \<longrightarrow> path_exists h i (sysfs_path_of b) = Inr False)
      \<and> path_exists h (length pre) (sysfs_path_of b) = Inr True"
  with n have n': "snd (snd (scan_devices (path_exists h) 0 (pre @ b # post) [] [])) = None"
    by simp
  from a scan_devices_first_present [OF e _ _ n']
  have m: "map_of (fst (scan_devices (path_exists h) 0 devices [] [])) b
             = Some \<lparr>bus_number = b, device_count = 1 + int (count_list post b),
                    sysfs_path = sysfs_path_of b\<rparr>"
    and c: "count_list (fst (snd (scan_devices (path_exists h) 0 devices [] [])))
              (Exists (sysfs_path_of b)) = count_list pre b + 1"
    by simp_all
  from m show "\<lparr>bus_number = b, device_count = 1 + int (count_list post b),
                  sysfs_path = sysfs_path_of b\<rparr> \<in> set (accepted_buses h devices)"
    by (rule accepted)
  from c show "count_list (snd (find_elo_buses h vid)) (Exists (sysfs_path_of b))
                 = count_list pre b + 1"
    by (simp add: snd_find_elo_buses [OF assms(1)])
qed

text \<open>
  Bus 3 sighted twice without a control path, bus 1 in between with one; and bus 3
  sighted three times, its path there at the second sighting only.
\<close>

theorem absent_path_rechecked_witness:
  "usb_find host_no_path_3 ELO_VENDOR_ID = ([3, 1, 3], None)
   \<and> check_raised host_no_path_3 [3, 1, 3] = None
   \<and> path_exists host_no_path_3 0 (sysfs_path_of 3) = Inr False
   \<and> path_exists host_no_path_3 2 (sysfs_path_of 3) = Inr False
   \<and> 3 \<notin> bus_number ` set (accepted_buses host_no_path_3 [3, 1, 3])
   \<and> count_list (snd (find_elo_buses host_no_path_3 ELO_VENDOR_ID)) (Exists (sysfs_path_of 3)) = 2
   \<and> usb_find host_late_path ELO_VENDOR_ID = ([3] @ 3 # [3], None)
   \<and> check_raised host_late_path ([3] @ 3 # [3]) = None
   \<and> path_exists host_late_path 0 (sysfs_path_of 3) = Inr False
   \<and> path_exists host_late_path 1 (sysfs_path_of 3) = Inr True
   \<and> \<lparr>bus_number = 3, device_count = 2, sysfs_path = sysfs_path_of 3\<rparr>
        \<in> set (accepted_buses host_late_path ([3] @ 3 # [3]))
   \<and> count_list (snd (find_elo_buses host_late_path ELO_VENDOR_ID)) (Exists (sysfs_path_of 3)) = 2"
proof -
  have u: "usb_find host_no_path_3 ELO_VENDOR_ID = ([3, 1, 3], None)"
    by (simp add: host_no_path_3_def host_two_buses_def)
  have r: "check_raised host_no_path_3 [3, 1, 3] = None" by code_simp
  have p: "path_exists host_no_path_3 i (sysfs_path_of 3) = Inr False" for i
    by (simp add: host_no_path_3_def host_two_buses_def sysfs_path_of_inj)
  then have a: "\<forall>i<length [3, 1, 3 :: int]. [3, 1, 3] ! i = (3 :: int)
               \<longrightarrow> path_exists host_no_path_3 i (sysfs_path_of 3) = Inr False"
    by simp
  have 1: "3 \<notin> bus_number ` set (accepted_buses host_no_path_3 [3, 1, 3])
      \<and> count_list (snd (find_elo_buses host_no_path_3 ELO_VENDOR_ID)) (Exists (sysfs_path_of 3)) = 2"
    using absent_path_rechecked [OF u r, of 3] a by simp
  have u': "usb_find host_late_path ELO_VENDOR_ID = ([3] @ 3 # [3], None)"
    by (simp add: host_late_path_def host_two_buses_def)
  have r': "check_raised host_late_path ([3] @ 3 # [3]) = None" by code_simp
  have p0: "path_exists host_late_path 0 (sysfs_path_of 3) = Inr False"
    and p1: "path_exists host_late_path 1 (sysfs_path_of 3) = Inr True"
    by (simp_all add: host_late_path_def host_two_buses_def)
  have a': "[3] @ 3 # [3] = [3] @ (3 :: int) # [3]
      \<and> (\<forall>i<length [3 :: int]. [3] ! i = (3 :: int)
            \<longrightarrow> path_exists host_late_path i (sysfs_path_of 3) = Inr False)
      \<and> path_exists host_late_path (length [3 :: int]) (sysfs_path_of 3) = Inr True"
    using p0 p1 by simp
  have 2: "\<lparr>bus_number = 3, device_count = 2, sysfs_path = sysfs_path_of 3\<rparr>
        \<in> set (accepted_buses host_late_path ([3] @ 3 # [3]))
      \<and> count_list (snd (find_elo_buses host_late_path ELO_VENDOR_ID)) (Exists (sysfs_path_of 3)) = 2"
    using absent_path_rechecked [OF u' r', of 3, THEN conjunct2, rule_format, OF a'] by simp
  from u r p [of 0] p [of 2] 1 u' r' p0 p1 2 show ?thesis by blast
qed

text \<open>
  The claim as stated fails: on three devices of bus 3, with the path absent at the
  first sighting and present at the second, the path is checked again at the second
  sighting and bus 3 is accepted, with a count of two devices.
\<close>

theorem late_path_accepted:
  "path_exists host_late_path 0 (sysfs_path_of 3) = Inr False
   \<and> snd (find_elo_buses host_late_path ELO_VENDOR_ID)
       = [Find ELO_VENDOR_ID, Exists (sysfs_path_of 3), Exists (sysfs_path_of 3)]
   \<and> accepted_buses host_late_path [3, 3, 3]
       = [\<lparr>bus_number = 3, device_count = 2, sysfs_path = sysfs_path_of 3\<rparr>]"
  by code_simp

text \<open>
  Claim C4, amended. Every text the coordinator writes is two characters long, the digit
  and a newline: one \<open>"0\\n"\<close> per bus in phase 1 and then (unless
  \<open>time.sleep\<close> raises) one \<open>"1\\n"\<close> per bus in phase 2.
\<close>

theorem written_texts:
  "map snd (written (snd (reset_buses_parallel h buses reset_delay))) =
     replicate (length buses) ''0\<newline>''
     @ (case time_sleep reset_delay of
          Inl e \<Rightarrow> []
        | Inr d \<Rightarrow> replicate (length buses) ''1\<newline>'')"
  by (cases "time_sleep reset_delay")
    (simp_all add: written_reset_buses_parallel map_replicate_const comp_def)

text \<open>
  The claim as stated fails: the texts written for bus 1 are not single digits.
\<close>

theorem written_text_has_newline:
  "written (snd (reset_buses_parallel host_two_buses [bus_1] (Finite 1)))
     = [(sysfs_path_of 1, ''0\<newline>''), (sysfs_path_of 1, ''1\<newline>'')]
   \<and> ''0\<newline>'' \<noteq> ''0'' \<and> ''1\<newline>'' \<noteq> ''1''"
  by code_simp

text \<open>
  Claim C5, amended. Whenever a run submits a \<open>"1\\n"\<close> write, at time \<open>t\<close>, the
  sleep has returned and the trace is: the phase-1 submissions and the results of
  waiting on each of them, then the sleep of \<open>d\<close> seconds at time \<open>t1\<close>, then the
  rest, with \<open>t = t1 + d\<close>. Before the sleep only \<open>"0\\n"\<close> writes are submitted,
  and every bus has a phase-1 wait that ended by \<open>t1\<close>: either the write had
  finished when the wait ended, or the wait timed out, one second after it began, with
  the write still running.
\<close>

theorem phase_barrier:
  assumes "(t, Write p ''1\<newline>'') \<in> set (snd (reset_buses_parallel h buses reset_delay))"
  shows "\<exists>t1 d before after.
           time_sleep reset_delay = Inr d
         \<and> snd (reset_buses_parallel h buses reset_delay) = before @ [(t1, Sleep d)] @ after
         \<and> written before = map (\<lambda>b. (sysfs_path b, ''0\<newline>'')) buses
         \<and> (\<forall>b\<in>set buses. \<exists>w u r.
               (u, Result Disable b w r) \<in> set before \<and> 0 \<le> w \<and> w \<le> u \<and> u \<le> t1
               \<and> (r \<noteq> TimedOut \<longrightarrow> write_takes h Disable b \<le> u)
               \<and> (r = TimedOut \<longrightarrow> u = w + 1 \<and> u < write_takes h Disable b))
         \<and> t = t1 + d \<and> 0 \<le> d"
proof -
  let ?futures = "fst (disable_futures h buses)"
  let ?t1 = "fst (await_disables h 0 ?futures)"
  let ?disabled = "snd (await_disables h 0 ?futures)"
  let ?before = "map (\<lambda>b. (0, Write (sysfs_path b) ''0\<newline>'')) buses @ ?disabled"
  have nd: "(t, Write p ''1\<newline>'') \<notin> set ?before"
    using await_disables_no_write [of t p "''1\<newline>''" h 0 ?futures] by auto
  have ne: "buses \<noteq> []"
    using assms by (auto simp: reset_buses_parallel_def)
  obtain d where d: "time_sleep reset_delay = Inr d"
  proof (cases "time_sleep reset_delay")
    case (Inl e)
    from reset_buses_parallel_not_slept [OF ne this] assms nd show ?thesis by simp
  next
    case (Inr d)
    then show ?thesis by (rule that)
  qed
  let ?t2 = "?t1 + d"
  let ?enabled = "snd (count_enables h ?t2 (fst (enable_futures h buses ?t2)) 0)"
  let ?after = "map (\<lambda>b. (?t2, Write (sysfs_path b) ''1\<newline>'')) buses @ ?enabled"
  have 1: "snd (reset_buses_parallel h buses reset_delay) = ?before @ [(?t1, Sleep d)] @ ?after"
    by (rule reset_buses_parallel_slept [OF ne d])
  have 2: "written ?before = map (\<lambda>b. (sysfs_path b, ''0\<newline>'')) buses"
    by (simp add: written_append written_submissions written_await_disables)
  have 3: "\<exists>w u r. (u, Result Disable b w r) \<in> set ?before \<and> 0 \<le> w \<and> w \<le> u \<and> u \<le> ?t1
               \<and> (r \<noteq> TimedOut \<longrightarrow> write_takes h Disable b \<le> u)
               \<and> (r = TimedOut \<longrightarrow> u = w + 1 \<and> u < write_takes h Disable b)"
    if "b \<in> set buses" for b
  proof -
    from that have "(b, 0, write_takes h Disable b) \<in> set ?futures"
      by (simp add: disable_futures_immediate)
    from await_disables_observed [OF this, of h 0] show ?thesis by auto
  qed
  have "(t, Write p ''1\<newline>'') \<in> set ?after" using assms 1 nd by auto
  then have 4: "t = ?t2"
    using count_enables_no_write [of t p "''1\<newline>''" h ?t2 "fst (enable_futures h buses ?t2)" 0]
    by auto
  have 5: "0 \<le> d" using d by (rule time_sleep_nonneg)
  show ?thesis
    using d 1 2 3 4 5 by blast
qed

text \<open>
  On buses 1 and 3, where the phase-1 write of bus 1 blocks for five seconds.
\<close>

theorem phase_barrier_witness:
  "(2, Write (sysfs_path bus_3) ''1\<newline>'')
     \<in> set (snd (reset_buses_parallel host_slow_disable [bus_1, bus_3] (Finite 1)))
   \<and> (\<exists>t1 before after.
         time_sleep (Finite 1) = Inr 1
       \<and> snd (reset_buses_parallel host_slow_disable [bus_1, bus_3] (Finite 1))
           = before @ [(t1, Sleep 1)] @ after
       \<and> written before = [(sysfs_path bus_1, ''0\<newline>''), (sysfs_path bus_3, ''0\<newline>'')]
       \<and> 2 = t1 + 1)"
proof -
  have w: "(2, Write (sysfs_path bus_3) ''1\<newline>'')
     \<in> set (snd (reset_buses_parallel host_slow_disable [bus_1, bus_3] (Finite 1)))"
    by code_simp
  have s: "time_sleep (Finite 1) = Inr 1" by simp
  from phase_barrier [OF w] obtain t1 d before after where
    "time_sleep (Finite 1) = Inr d"
    and "snd (reset_buses_parallel host_slow_disable [bus_1, bus_3] (Finite 1))
           = before @ [(t1, Sleep d)] @ after"
    and "written before = map (\<lambda>b. (sysfs_path b, ''0\<newline>'')) [bus_1, bus_3]"
    and "2 = t1 + d"
    by blast
  with s have "time_sleep (Finite 1) = Inr 1
       \<and> snd (reset_buses_parallel host_slow_disable [bus_1, bus_3] (Finite 1))
           = before @ [(t1, Sleep 1)] @ after
       \<and> written before = [(sysfs_path bus_1, ''0\<newline>''), (sysfs_path bus_3, ''0\<newline>'')]
       \<and> 2 = t1 + 1"
    by simp
  then have "\<exists>t1 before after.
         time_sleep (Finite 1) = Inr 1
       \<and> snd (reset_buses_parallel host_slow_disable [bus_1, bus_3] (Finite 1))
           = before @ [(t1, Sleep 1)] @ after
       \<and> written before = [(sysfs_path bus_1, ''0\<newline>''), (sysfs_path bus_3, ''0\<newline>'')]
       \<and> 2 = t1 + 1"
    by blast
  with w show ?thesis by blast
qed

text \<open>
  The claim as stated fails: when the phase-1 write of bus 1 blocks for five seconds,
  its wait times out at second 1, and at second 2 both phase-2 writes are submitted and
  started (the pool's second worker is idle), three seconds before the phase-1 write of
  bus 1 finishes.
\<close>

theorem slow_disable_overtaken:
  "snd (reset_buses_parallel host_slow_disable [bus_1, bus_3] (Finite 1))
     = [(0, Write (sysfs_path_of 1) ''0\<newline>''), (0, Write (sysfs_path_of 3) ''0\<newline>''),
        (1, Result Disable bus_1 0 TimedOut), (1, Result Disable bus_3 1 Returned),
        (1, Sleep 1),
        (2, Write (sysfs_path_of 1) ''1\<newline>''), (2, Write (sysfs_path_of 3) ''1\<newline>''),
        (2, Result Enable bus_1 2 Returned), (2, Result Enable bus_3 2 Returned)]
   \<and> fst (disable_futures host_slow_disable [bus_1, bus_3]) = [(bus_1, 0, 5), (bus_3, 0, 0)]
   \<and> fst (enable_futures host_slow_disable [bus_1, bus_3] 2) = [(bus_1, 2, 2), (bus_3, 2, 2)]"
  by code_simp

text \<open>
  Claim C6, amended. When \<open>time.sleep\<close> accepts the delay, then whatever the host
  makes of the writes (how long each takes, whether it raises), the coordinator submits
  one phase-2 write per bus of its input, in order, as it submits one phase-1 write per
  bus, and the submitted writes are the same on any two hosts; every phase-1 write
  starts when it is submitted; and when no phase-1 wait timed out (the writes returned
  or raised), every phase-2 write starts when it is submitted.
\<close>

theorem enable_always_submitted:
  assumes "time_sleep reset_delay = Inr d"
  shows "map fst (filter (\<lambda>w. snd w = ''1\<newline>'') (written (snd (reset_buses_parallel h buses reset_delay))))
           = map sysfs_path buses
       \<and> map fst (filter (\<lambda>w. snd w = ''0\<newline>'') (written (snd (reset_buses_parallel h buses reset_delay))))
           = map sysfs_path buses
       \<and> written (snd (reset_buses_parallel h buses reset_delay))
           = written (snd (reset_buses_parallel h' buses reset_delay))
       \<and> fst (disable_futures h buses) = map (\<lambda>b. (b, 0, write_takes h Disable b)) buses
       \<and> (\<not> timed_out Disable (snd (reset_buses_parallel h buses reset_delay)) \<longrightarrow>
            fst (enable_futures h buses
                  (fst (await_disables h 0 (fst (disable_futures h buses))) + d))
              = map (\<lambda>b. (b, fst (await_disables h 0 (fst (disable_futures h buses))) + d,
                           fst (await_disables h 0 (fst (disable_futures h buses))) + d
                             + write_takes h Enable b)) buses)"
  using assms enable_futures_immediate [OF assms, of h buses]
  by (simp add: written_reset_buses_parallel filter_map comp_def disable_futures_immediate)

text \<open>
  On buses 1 and 3, where the phase-1 write of bus 1 raises.
\<close>

theorem enable_always_submitted_witness:
  "time_sleep (Finite 1) = Inr 1
   \<and> write_fails host_bus_1_fails Disable bus_1
   \<and> \<not> timed_out Disable (snd (reset_buses_parallel host_bus_1_fails [bus_1, bus_3] (Finite 1)))
   \<and> map fst (filter (\<lambda>w. snd w = ''1\<newline>'')
         (written (snd (reset_buses_parallel host_bus_1_fails [bus_1, bus_3] (Finite 1)))))
       = [sysfs_path bus_1, sysfs_path bus_3]
   \<and> fst (disable_futures host_bus_1_fails [bus_1, bus_3]) = [(bus_1, 0, 0), (bus_3, 0, 0)]
   \<and> fst (enable_futures host_bus_1_fails [bus_1, bus_3] 1) = [(bus_1, 1, 1), (bus_3, 1, 1)]"
proof -
  have s: "time_sleep (Finite 1) = Inr 1" by simp
  have f: "write_fails host_bus_1_fails Disable bus_1" by code_simp
  have n: "\<not> timed_out Disable
      (snd (reset_buses_parallel host_bus_1_fails [bus_1, bus_3] (Finite 1)))"
    by code_simp
  have t: "fst (await_disables host_bus_1_fails 0
      (fst (disable_futures host_bus_1_fails [bus_1, bus_3]))) + 1 = 1"
    by code_simp
  have k: "write_takes host_bus_1_fails ph b = 0" for ph b
    by (simp add: host_bus_1_fails_def host_two_buses_def)
  note e = enable_always_submitted [OF s, of host_bus_1_fails "[bus_1, bus_3]" host_two_buses]
  have 1: "map fst (filter (\<lambda>w. snd w = ''1\<newline>'')
         (written (snd (reset_buses_parallel host_bus_1_fails [bus_1, bus_3] (Finite 1)))))
       = map sysfs_path [bus_1, bus_3]"
    using e by (rule conjunct1)
  have 2: "fst (disable_futures host_bus_1_fails [bus_1, bus_3])
      = map (\<lambda>b. (b, 0, write_takes host_bus_1_fails Disable b)) [bus_1, bus_3]"
    using e by blast
  have 3: "fst (enable_futures host_bus_1_fails [bus_1, bus_3] 1)
      = map (\<lambda>b. (b, 1, 1 + write_takes host_bus_1_fails Enable b)) [bus_1, bus_3]"
    using e n unfolding t by blast
  from s f n 1 2 3 show ?thesis by (simp add: k)
qed

text \<open>
  The claim as stated fails twice. With a delay of -1 second \<open>time.sleep\<close> raises
  after phase 1 and no phase-2 write is submitted. And when the writes on bus 1 block
  for ten seconds each, the first is still running when phase 2 begins, the phase-2
  write of bus 1 takes the other worker, and the phase-2 write of bus 3, which takes no
  time and does not raise, starts at second 10 only: its wait times out, and no bus is
  counted.
\<close>

theorem enable_not_always:
  "fst (reset_buses_parallel host_two_buses [bus_1, bus_3] (Finite (- 1))) = Inl ValueError
   \<and> written (snd (reset_buses_parallel host_two_buses [bus_1, bus_3] (Finite (- 1))))
       = [(sysfs_path_of 1, ''0\<newline>''), (sysfs_path_of 3, ''0\<newline>'')]
   \<and> write_takes host_bus_1_hangs Enable bus_3 = 0
   \<and> \<not> write_fails host_bus_1_hangs Enable bus_3
   \<and> fst (enable_futures host_bus_1_hangs [bus_1, bus_3] 2) = [(bus_1, 2, 12), (bus_3, 10, 10)]
   \<and> snd (reset_buses_parallel host_bus_1_hangs [bus_1, bus_3] (Finite 1))
       = [(0, Write (sysfs_path_of 1) ''0\<newline>''), (0, Write (sysfs_path_of 3) ''0\<newline>''),
          (1, Result Disable bus_1 0 TimedOut), (1, Result Disable bus_3 1 Returned),
          (1, Sleep 1),
          (2, Write (sysfs_path_of 1) ''1\<newline>''), (2, Write (sysfs_path_of 3) ''1\<newline>''),
          (3, Result Enable bus_1 2 TimedOut), (4, Result Enable bus_3 3 TimedOut)]
   \<and> fst (reset_buses_parallel host_bus_1_hangs [bus_1, bus_3] (Finite 1)) = Inr 0"
  by code_simp

text \<open>
  Claim C7 (one descriptor per distinct bus, with the count of its devices). With two
  devices on bus 1 and one on bus 3, both control paths present, the dictionary holds
  the two descriptors the claim asks for, but \<open>find_elo_buses\<close> raises \<open>TypeError\<close>
  where it should return them.
\<close>

theorem find_elo_buses_two_buses:
  "fst (find_elo_buses host_two_buses ELO_VENDOR_ID) = Inl TypeError
   \<and> accepted_buses host_two_buses [1, 1, 3] = [bus_1, bus_3]"
  by code_simp



text \<open>
  Claim C9, amended. \<open>find_elo_buses\<close> raises \<open>USBBusResetError\<close> exactly when an
  \<open>Exception\<close> is raised inside its \<open>try\<close> block: by an existence check of a
  control path or, when no check raises, by the enumeration. Where no existence check
  can raise, it raises \<open>USBBusResetError\<close> exactly when the enumeration ends with
  an \<open>Exception\<close>. An enumeration that yields no device and ends normally gives the
  empty set; and when \<open>find_elo_buses\<close> raises \<open>USBBusResetError\<close>, \<open>main\<close>
  returns 1 with an empty coordinator trace.
\<close>

theorem discovery_error:
  "(fst (find_elo_buses h vid) = Inl USBBusResetError \<longleftrightarrow>
      (\<exists>e. is_Exception e
         \<and> (check_raised h (fst (usb_find h vid)) = Some e
            \<or> check_raised h (fst (usb_find h vid)) = None \<and> snd (usb_find h vid) = Some e)))
   \<and> ((\<forall>i p e. path_exists h i p \<noteq> Inl e) \<longrightarrow>
        (fst (find_elo_buses h vid) = Inl USBBusResetError
           \<longleftrightarrow> (\<exists>e. snd (usb_find h vid) = Some e \<and> is_Exception e)))
   \<and> (usb_find h vid = ([], None) \<longrightarrow> find_elo_buses h vid = (Inr [], [Find vid]))
   \<and> (check_permissions h
        \<and> fst (find_elo_buses h (py_or vendor_id ELO_VENDOR_ID)) = Inl USBBusResetError \<longrightarrow>
          fst (main h reset_delay vendor_id) = 1 \<and> snd (snd (main h reset_delay vendor_id)) = [])"
proof -
  obtain devices failure where u: "usb_find h vid = (devices, failure)"
    by (cases "usb_find h vid")
  have wrap: "(if is_Exception e then Inl USBBusResetError else Inl e)
      = (Inl USBBusResetError :: exn + USBBusInfo list) \<longleftrightarrow> is_Exception e" for e
    by (cases e) simp_all
  have set: "py_set xs \<noteq> Inl USBBusResetError" for xs
    by (cases xs) simp_all
  have 1: "fst (find_elo_buses h vid) = Inl USBBusResetError \<longleftrightarrow>
      (\<exists>e. is_Exception e
         \<and> (check_raised h (fst (usb_find h vid)) = Some e
            \<or> check_raised h (fst (usb_find h vid)) = None \<and> snd (usb_find h vid) = Some e))"
    using fst_find_elo_buses [OF u] u wrap set
    by (cases "check_raised h devices"; cases failure) auto
  have 2: "fst (find_elo_buses h vid) = Inl USBBusResetError
           \<longleftrightarrow> (\<exists>e. snd (usb_find h vid) = Some e \<and> is_Exception e)"
    if "\<forall>i p e. path_exists h i p \<noteq> Inl e"
  proof -
    have "check_raised h devices = None"
      unfolding check_raised_def using that by (intro scan_devices_no_raise) simp
    with 1 u show ?thesis by auto
  qed
  have 3: "find_elo_buses h vid = (Inr [], [Find vid])" if "usb_find h vid = ([], None)"
    using that by (simp add: find_elo_buses_def)
  have 4: "fst (main h reset_delay vendor_id) = 1 \<and> snd (snd (main h reset_delay vendor_id)) = []"
    if "check_permissions h
        \<and> fst (find_elo_buses h (py_or vendor_id ELO_VENDOR_ID)) = Inl USBBusResetError"
    using that
    by (cases "find_elo_buses h (py_or vendor_id ELO_VENDOR_ID)")
      (simp add: main_def main_with_def)
  from 1 2 3 4 show ?thesis by blast
qed

text \<open>
  On the host whose enumeration raises, on a host without matching device, and on the
  host whose existence check raises.
\<close>

theorem discovery_error_witness:
  "snd (usb_find host_usb_error ELO_VENDOR_ID) = Some USBError \<and> is_Exception USBError
   \<and> check_raised host_usb_error (fst (usb_find host_usb_error ELO_VENDOR_ID)) = None
   \<and> fst (find_elo_buses host_usb_error ELO_VENDOR_ID) = Inl USBBusResetError
   \<and> check_permissions host_usb_error
   \<and> fst (main host_usb_error None None) = 1
   \<and> snd (snd (main host_usb_error None None)) = []
   \<and> usb_find host_two_buses 7 = ([], None)
   \<and> find_elo_buses host_two_buses 7 = (Inr [], [Find 7])
   \<and> check_raised host_exists_raises (fst (usb_find host_exists_raises ELO_VENDOR_ID))
       = Some OSError
   \<and> is_Exception OSError
   \<and> fst (find_elo_buses host_exists_raises ELO_VENDOR_ID) = Inl USBBusResetError"
proof -
  have u: "snd (usb_find host_usb_error ELO_VENDOR_ID) = Some USBError"
    by (simp add: host_usb_error_def host_two_buses_def)
  have r: "check_raised host_usb_error (fst (usb_find host_usb_error ELO_VENDOR_ID)) = None"
    by code_simp
  have n: "\<forall>i p e. path_exists host_usb_error i p \<noteq> Inl e"
    by (simp add: host_usb_error_def host_two_buses_def)
  have c: "check_permissions host_usb_error"
    by (simp add: check_permissions_def host_usb_error_def host_two_buses_def)
  have v: "py_or None ELO_VENDOR_ID = ELO_VENDOR_ID" by (simp add: py_or_def)
  have u': "usb_find host_two_buses 7 = ([], None)" by (simp add: host_two_buses_def)
  have r': "check_raised host_exists_raises (fst (usb_find host_exists_raises ELO_VENDOR_ID))
       = Some OSError"
    by code_simp
  have 1: "fst (find_elo_buses host_usb_error ELO_VENDOR_ID) = Inl USBBusResetError"
    using discovery_error [of host_usb_error ELO_VENDOR_ID None None] n u by auto
  have 2: "fst (main host_usb_error None None) = 1 \<and> snd (snd (main host_usb_error None None)) = []"
    using discovery_error [of host_usb_error ELO_VENDOR_ID None None] c v 1 by auto
  have 3: "find_elo_buses host_two_buses 7 = (Inr [], [Find 7])"
    using discovery_error [of host_two_buses 7 None None] u' by blast
  have 4: "fst (find_elo_buses host_exists_raises ELO_VENDOR_ID) = Inl USBBusResetError"
    using discovery_error [of host_exists_raises ELO_VENDOR_ID None None] r' by auto
  from u r c 1 2 u' 3 r' 4 show ?thesis by simp
qed

text \<open>
  The claim as stated fails: the enumeration succeeds, the existence check of the
  control path of bus 1 raises \<open>OSError\<close>, and \<open>find_elo_buses\<close> raises
  \<open>USBBusResetError\<close>.
\<close>

theorem exists_raises_wrapped:
  "usb_find host_exists_raises ELO_VENDOR_ID = ([1, 1, 3], None)
   \<and> path_exists host_exists_raises 0 (sysfs_path_of 1) = Inl OSError
   \<and> find_elo_buses host_exists_raises ELO_VENDOR_ID
       = (Inl USBBusResetError, [Find ELO_VENDOR_ID, Exists (sysfs_path_of 1)])"
  by code_simp

text \<open>
  Claim C10. A delay of zero and a vendor id of zero are replaced by the defaults: the
  body of \<open>main\<close>, whatever function finds the buses, and \<open>main\<close> itself behave on
  them as on \<open>None\<close> and as on the default values. With a function that returns
  buses 1 and 3, a requested delay of zero gives the trace of a delay of one second: the
  coordinator sleeps one second, where it would sleep zero seconds were it handed the
  zero; and \<open>main\<close> asked for vendor 0 looks for vendor 0x04E7.
\<close>

theorem falsy_defaults:
  "main_with locate h (Some (Finite 0)) vendor_id = main_with locate h None vendor_id
   \<and> main_with locate h (Some (Finite 0)) vendor_id
       = main_with locate h (Some DEFAULT_RESET_DELAY) vendor_id
   \<and> main_with locate h reset_delay (Some 0) = main_with locate h reset_delay None
   \<and> main_with locate h reset_delay (Some 0)
       = main_with locate h reset_delay (Some ELO_VENDOR_ID)
   \<and> main h (Some (Finite 0)) vendor_id = main h None vendor_id
   \<and> main h reset_delay (Some 0) = main h reset_delay None
   \<and> py_or (Some (Finite 0)) DEFAULT_RESET_DELAY = Finite 1
   \<and> py_or (Some 0) ELO_VENDOR_ID = 0x04E7
   \<and> snd (snd (main_with locate_two_buses host_two_buses (Some (Finite 0)) None))
       = snd (reset_buses_parallel host_two_buses [bus_1, bus_3] (Finite 1))
   \<and> (0, Sleep 1) \<in> set (snd (snd (main_with locate_two_buses host_two_buses (Some (Finite 0)) None)))
   \<and> (0, Sleep 0) \<in> set (snd (reset_buses_parallel host_two_buses [bus_1, bus_3] (Finite 0)))
   \<and> fst (snd (main host_two_buses None (Some 0)))
       = [Find 0x04E7, Exists (sysfs_path_of 1), Exists (sysfs_path_of 3)]"
proof -
  have z: "Finite 0 = 0" by (simp add: zero_pyfloat_def)
  have d: "py_or (Some (Finite 0)) DEFAULT_RESET_DELAY = Finite 1"
    by (simp add: py_or_def z DEFAULT_RESET_DELAY_def)
  have v: "py_or (Some 0) ELO_VENDOR_ID = 0x04E7" by (simp add: py_or_def ELO_VENDOR_ID_def)
  have 1: "main_with locate h (Some (Finite 0)) vendor_id = main_with locate h None vendor_id"
    and 2: "main_with locate h (Some (Finite 0)) vendor_id
       = main_with locate h (Some DEFAULT_RESET_DELAY) vendor_id"
    and 3: "main_with locate h reset_delay (Some 0) = main_with locate h reset_delay None"
    and 4: "main_with locate h reset_delay (Some 0)
       = main_with locate h reset_delay (Some ELO_VENDOR_ID)"
    for locate h reset_delay vendor_id
    by (simp_all add: main_with_def py_or_def z)
  have 5: "snd (snd (main_with locate_two_buses host_two_buses (Some (Finite 0)) None))
       = snd (reset_buses_parallel host_two_buses [bus_1, bus_3] (Finite 1))"
    by code_simp
  have 6: "(0, Sleep 1) \<in> set (snd (snd (main_with locate_two_buses host_two_buses (Some (Finite 0)) None)))"
    by code_simp
  have 7: "(0, Sleep 0) \<in> set (snd (reset_buses_parallel host_two_buses [bus_1, bus_3] (Finite 0)))"
    by code_simp
  have 8: "fst (snd (main host_two_buses None (Some 0)))
       = [Find 0x04E7, Exists (sysfs_path_of 1), Exists (sysfs_path_of 3)]"
    by code_simp
  from d v 1 2 3 4 5 6 7 8 show ?thesis by (simp add: main_def)
qed

end
